theory Spec2Isabelle
  imports Main
begin

section \<open>The undo/redo history controller of \<^verbatim>\<open>src/App.tsx\<close>\<close>

text \<open>
  The component \<^verbatim>\<open>App\<close> keeps three pieces of React state (\<^verbatim>\<open>content\<close>,
  \<^verbatim>\<open>history\<close>, \<^verbatim>\<open>historyIndex\<close>) and two mutable refs
  (\<^verbatim>\<open>isNavigatingHistory\<close>, \<^verbatim>\<open>debounceTimer\<close>). The model is a record of
  these five, of one piece of React's own bookkeeping (whether the last run of the effect
  returned a cleanup function) and of the browser's timeouts, with every handler a
  function on the record.

  \<^item> \<^verbatim>\<open>historyIndex\<close> is a JavaScript number that the code only ever sets to \<open>0\<close>,
    to \<^verbatim>\<open>historyIndex - 1\<close> under the test \<^verbatim>\<open>historyIndex > 0\<close>, to
    \<^verbatim>\<open>historyIndex + 1\<close>, and to \<^verbatim>\<open>newHistory.length - 1\<close> right after a push: a
    natural number. Where the code computes \<^verbatim>\<open>history.length - 1\<close>, which is \<open>-1\<close> for
    an empty array, the model computes in \<open>int\<close>.
  \<^item> \<^verbatim>\<open>window.setTimeout\<close> enters a timeout in the browser's table and returns its
    handle, a positive integer never given out before; \<^verbatim>\<open>clearTimeout\<close> takes the
    timeout with the given handle out of the table and does nothing when there is none.
    \<open>timers\<close> is that table, in the order the timeouts were set: each entry holds its
    handle, the time left and the values the callback's closure captured at the render that
    set it. \<^verbatim>\<open>debounceTimer.current\<close> holds a handle (or \<^verbatim>\<open>null\<close>); the code never
    resets it, so it may be the handle of a timeout that has fired or was cleared.
  \<^item> Time is discrete: a \<open>Tick\<close> is one time unit (a millisecond for \<^verbatim>\<open>setTimeout\<close>).
\<close>

subsection \<open>State\<close>

definition INITIAL_CONTENT :: string where
  \<open>INITIAL_CONTENT =
     ''<h1>Welcome to the Sync Editor!</h1>'' @ [CHR 0x0A] @
     ''<p>This is a demonstration of a <strong>bidirectional editor</strong>. You can edit the rich text on the left, or the raw HTML on the right.</p>'' @ [CHR 0x0A] @
     ''<p><br></p>'' @ [CHR 0x0A] @
     ''<p>Try some things:</p>'' @ [CHR 0x0A] @
     ''<ul>'' @ [CHR 0x0A] @
     ''    <li>Change the <span style='' @ [CHR 0x22] @ ''color: rgb(230, 0, 0);'' @ [CHR 0x22] @ ''>color</span> of this text.</li>'' @ [CHR 0x0A] @
     ''    <li>Make a word <em>italic</em> or <u>underlined</u>.</li>'' @ [CHR 0x0A] @
     ''    <li>Add a new heading or a list item.</li>'' @ [CHR 0x0A] @
     ''</ul>'' @ [CHR 0x0A] @
     ''<p><br></p>'' @ [CHR 0x0A] @
     ''<p>Your changes will be reflected in the other panel <em>instantly</em>.</p>''\<close>

record pending =
  handle :: nat
  remaining :: nat
  cap_content :: string
  cap_history :: "string list"
  cap_historyIndex :: nat

record app_state =
  content :: string
  history :: "string list"
  historyIndex :: nat
  isNavigatingHistory :: bool
  debounceTimer :: "nat option"
  hasCleanup :: bool
  timers :: "pending list"
  lastHandle :: nat

subsection \<open>Array reads\<close>

text \<open>
  A JavaScript array read outside the array is \<^verbatim>\<open>undefined\<close>, which is no string:
  \<open>None\<close> here.
\<close>

definition js_get :: "'a list \<Rightarrow> int \<Rightarrow> 'a option" where
  "js_get xs i = (if 0 \<le> i \<and> i < int (length xs) then Some (xs ! nat i) else None)"

subsection \<open>The debounced commit\<close>

text \<open>
  The body of the arrow function handed to \<^verbatim>\<open>window.setTimeout\<close>, as a function of the
  three variables its closure reads. \<open>None\<close> is the early \<^verbatim>\<open>return\<close> (no state is
  set); \<open>Some (h, i)\<close> are the arguments of \<^verbatim>\<open>setHistory\<close> and \<^verbatim>\<open>setHistoryIndex\<close>.
  \<^verbatim>\<open>slice(0, n)\<close> with \<open>n\<close> beyond the length returns the whole array, as \<open>take\<close> does.
\<close>

definition commitCallback :: "string list \<Rightarrow> nat \<Rightarrow> string \<Rightarrow> (string list \<times> nat) option" where
  "commitCallback hist idx cont =
     (let newHistory = take (idx + 1) hist in
      if js_get newHistory (int (length newHistory) - 1) = Some cont then None
      else (let pushed = newHistory @ [cont] in Some (pushed, length pushed - 1)))"

text \<open>The commit as a transformer of the stack \<open>(entries, cursor)\<close>.\<close>

definition commit :: "string \<Rightarrow> string list \<times> nat \<Rightarrow> string list \<times> nat" where
  "commit s stack =
     (case commitCallback (fst stack) (snd stack) s of
        None \<Rightarrow> stack
      | Some stack' \<Rightarrow> stack')"

subsection \<open>Timeouts\<close>

definition clearTimeout :: "nat \<Rightarrow> app_state \<Rightarrow> app_state" where
  "clearTimeout h st = st\<lparr>timers := filter (\<lambda>p. handle p \<noteq> h) (timers st)\<rparr>"

text \<open>
  \<^verbatim>\<open>window.setTimeout(() => {...}, 500)\<close> in a render with the given content, history and
  index; the new handle is \<open>lastHandle\<close> of the result.
\<close>

definition setTimeout :: "string \<Rightarrow> string list \<Rightarrow> nat \<Rightarrow> app_state \<Rightarrow> app_state" where
  "setTimeout cont hist idx st =
     st\<lparr>timers := timers st @ [\<lparr>handle = Suc (lastHandle st), remaining = 500,
                                 cap_content = cont, cap_history = hist,
                                 cap_historyIndex = idx\<rparr>],
        lastHandle := Suc (lastHandle st)\<rparr>"

subsection \<open>The effect\<close>

text \<open>
  \<open>clearPending\<close> is the statement
  \<^verbatim>\<open>if (debounceTimer.current) clearTimeout(debounceTimer.current)\<close> (\<^verbatim>\<open>null\<close> and \<open>0\<close>
  are the falsy values of the ref), which stands in the effect body and is the whole of
  the cleanup function the effect returns. The body returns that function only when it
  reaches its end: the early \<^verbatim>\<open>return\<close> under the navigation flag returns none
  (\<open>hasCleanup\<close>). After every render in which one of the dependencies
  \<^verbatim>\<open>[content, history, historyIndex]\<close> changed, React runs the cleanup function of the
  previous run, if there is one, and then the body (\<open>rerender\<close>; strings and numbers are
  compared by value, and the handlers keep the same \<^verbatim>\<open>history\<close> array); at mount it
  runs the body alone. State set several times in one handler or callback is rendered once.
\<close>

definition clearPending :: "app_state \<Rightarrow> app_state" where
  "clearPending st =
     (case debounceTimer st of
        None \<Rightarrow> st
      | Some h \<Rightarrow> if h = 0 then st else clearTimeout h st)"

definition cleanup :: "app_state \<Rightarrow> app_state" where
  "cleanup st = (if hasCleanup st then clearPending st else st)"

definition effect :: "app_state \<Rightarrow> app_state" where
  "effect st =
     (if isNavigatingHistory st then st\<lparr>isNavigatingHistory := False, hasCleanup := False\<rparr>
      else (let st1 = setTimeout (content st) (history st) (historyIndex st) (clearPending st)
            in st1\<lparr>debounceTimer := Some (lastHandle st1), hasCleanup := True\<rparr>))"

definition rerender :: "app_state \<Rightarrow> app_state \<Rightarrow> app_state" where
  "rerender prev st =
     (if content st = content prev \<and> history st = history prev
         \<and> historyIndex st = historyIndex prev
      then st else effect (cleanup st))"

definition mount :: app_state where
  "mount = effect \<lparr>content = INITIAL_CONTENT, history = [INITIAL_CONTENT], historyIndex = 0,
                   isNavigatingHistory = False, debounceTimer = None, hasCleanup = False,
                   timers = [], lastHandle = 0\<rparr>"

subsection \<open>Handlers\<close>

definition handleContentChange :: "string \<Rightarrow> app_state \<Rightarrow> app_state" where
  "handleContentChange newContent st = st\<lparr>content := newContent\<rparr>"

text \<open>
  \<^verbatim>\<open>setContent(history[newIndex])\<close> with \<^verbatim>\<open>newIndex\<close> outside the array would store
  \<^verbatim>\<open>undefined\<close> in a state variable of type \<^verbatim>\<open>string\<close>; the handlers return \<open>None\<close>
  there, so every \<open>Some\<close> result is a typed state.
\<close>

definition handleUndo :: "app_state \<Rightarrow> app_state option" where
  "handleUndo st =
     (if historyIndex st > 0 then
        (let newIndex = historyIndex st - 1 in
         case js_get (history st) (int newIndex) of
           None \<Rightarrow> None
         | Some s \<Rightarrow> Some (st\<lparr>isNavigatingHistory := True, historyIndex := newIndex, content := s\<rparr>))
      else Some st)"

definition handleRedo :: "app_state \<Rightarrow> app_state option" where
  "handleRedo st =
     (if int (historyIndex st) < int (length (history st)) - 1 then
        (let newIndex = historyIndex st + 1 in
         case js_get (history st) (int newIndex) of
           None \<Rightarrow> None
         | Some s \<Rightarrow> Some (st\<lparr>isNavigatingHistory := True, historyIndex := newIndex, content := s\<rparr>))
      else Some st)"

definition canUndo :: "app_state \<Rightarrow> bool" where
  "canUndo st = (historyIndex st > 0)"

definition canRedo :: "app_state \<Rightarrow> bool" where
  "canRedo st = (int (historyIndex st) < int (length (history st)) - 1)"

subsection \<open>The passing of time\<close>

text \<open>
  The callback of a timeout runs on the values its closure captured. When it sets state,
  \<^verbatim>\<open>setHistory\<close> receives a fresh array, so the dependencies changed and the effect runs
  again.
\<close>

definition callback :: "pending \<Rightarrow> app_state \<Rightarrow> app_state" where
  "callback p st =
     (case commitCallback (cap_history p) (cap_historyIndex p) (cap_content p) of
        None \<Rightarrow> st
      | Some (newHistory, newIndex) \<Rightarrow>
          effect (cleanup (st\<lparr>history := newHistory, historyIndex := newIndex\<rparr>)))"

text \<open>
  One time unit passes. The timeouts with one unit left are due; every timeout has one unit
  less to wait; then the due ones fire in the order they were set: each leaves the table and
  runs its callback, unless a callback that ran before it in the same tick cleared it.
\<close>

definition due :: "app_state \<Rightarrow> nat list" where
  "due st = map handle (filter (\<lambda>p. remaining p \<le> 1) (timers st))"

definition age :: "app_state \<Rightarrow> app_state" where
  "age st = st\<lparr>timers := map (\<lambda>p. p\<lparr>remaining := remaining p - 1\<rparr>) (timers st)\<rparr>"

definition expire :: "nat \<Rightarrow> app_state \<Rightarrow> app_state" where
  "expire h st = st\<lparr>timers := filter (\<lambda>p. handle p \<noteq> h) (timers st)\<rparr>"

fun fire_due :: "nat list \<Rightarrow> app_state \<Rightarrow> app_state" where
  "fire_due [] st = st"
| "fire_due (h # hs) st =
     fire_due hs (case find (\<lambda>p. handle p = h) (timers st) of
                    None \<Rightarrow> st
                  | Some p \<Rightarrow> callback p (expire h st))"

definition tick :: "app_state \<Rightarrow> app_state" where
  "tick st = fire_due (due st) (age st)"

text \<open>How many callbacks \<open>fire_due\<close> runs.\<close>

fun callbacks_run :: "nat list \<Rightarrow> app_state \<Rightarrow> nat" where
  "callbacks_run [] st = 0"
| "callbacks_run (h # hs) st =
     (case find (\<lambda>p. handle p = h) (timers st) of
        None \<Rightarrow> callbacks_run hs st
      | Some p \<Rightarrow> Suc (callbacks_run hs (callback p (expire h st))))"

subsection \<open>Events\<close>

datatype event = Change string | Undo | Redo | Tick

fun step :: "event \<Rightarrow> app_state \<Rightarrow> app_state option" where
  "step (Change s) st = Some (rerender st (handleContentChange s st))"
| "step Undo st = map_option (rerender st) (handleUndo st)"
| "step Redo st = map_option (rerender st) (handleRedo st)"
| "step Tick st = Some (tick st)"

fun run :: "event list \<Rightarrow> app_state \<Rightarrow> app_state option" where
  "run [] st = Some st"
| "run (e # es) st = (case step e st of None \<Rightarrow> None | Some st' \<Rightarrow> run es st')"

text \<open>How many times a timeout callback ran during a run.\<close>

fun fired :: "event list \<Rightarrow> app_state \<Rightarrow> nat" where
  "fired [] st = 0"
| "fired (e # es) st =
     (case step e st of
        None \<Rightarrow> 0
      | Some st' \<Rightarrow> (if e = Tick then callbacks_run (due st) (age st) else 0) + fired es st')"

subsection \<open>Invariants of the reachable states\<close>

text \<open>The cursor is an index of the entries.\<close>

definition cursor_ok :: "app_state \<Rightarrow> bool" where
  "cursor_ok st = (historyIndex st < length (history st))"

text \<open>
  At most one timeout is pending: the one whose handle the ref holds, set by the last run
  of the effect, with the cleanup function that clears it registered.
\<close>

definition tidy :: "app_state \<Rightarrow> bool" where
  "tidy st =
     (case timers st of
        [] \<Rightarrow> True
      | [p] \<Rightarrow> debounceTimer st = Some (handle p) \<and> handle p \<noteq> 0 \<and> hasCleanup st
      | _ \<Rightarrow> False)"

text \<open>
  Every pending timeout is the one whose handle the ref holds, so that the next run of the
  effect body clears it, whether a cleanup function is registered or not.
\<close>

definition owned :: "app_state \<Rightarrow> bool" where
  "owned st = list_all (\<lambda>p. debounceTimer st = Some (handle p) \<and> handle p \<noteq> 0) (timers st)"

text \<open>
  The closure of a pending timeout holds the values of the current render: every change of
  \<^verbatim>\<open>content\<close>, \<^verbatim>\<open>history\<close> or \<^verbatim>\<open>historyIndex\<close> runs the cleanup, which clears it.
\<close>

definition synced :: "app_state \<Rightarrow> bool" where
  "synced st =
     list_all (\<lambda>p. cap_content p = content st \<and> cap_history p = history st
                    \<and> cap_historyIndex p = historyIndex st) (timers st)"

definition app_inv :: "app_state \<Rightarrow> bool" where
  "app_inv st =
     (cursor_ok st \<and> synced st \<and> tidy st \<and> \<not> isNavigatingHistory st
      \<and> distinct_adj (history st) \<and> js_get (history st) 0 = Some INITIAL_CONTENT)"

subsection \<open>Bursts of edits\<close>

text \<open>
  A list of pairs \<open>(s, gap)\<close> is the event sequence in which each snapshot \<open>s\<close> is
  supplied and followed by \<open>gap\<close> time units without any event.
\<close>

fun typing :: "(string \<times> nat) list \<Rightarrow> event list" where
  "typing [] = []"
| "typing ((s, gap) # rest) = Change s # replicate gap Tick @ typing rest"

section \<open>Single events\<close>

lemma js_get_nat: "i < length xs \<Longrightarrow> js_get xs (int i) = Some (xs ! i)"
  by (simp add: js_get_def)


lemma commitCallback_in_range:
  assumes "cursor < length entries"
  shows "commitCallback entries cursor s =
           (if s = entries ! cursor then None
            else Some (take (Suc cursor) entries @ [s], Suc cursor))"
proof -
  have len: "length (take (Suc cursor) entries) = Suc cursor"
    using assms by simp
  have rd: "js_get (take (Suc cursor) entries) (int (Suc cursor) - 1) = Some (entries ! cursor)"
    using assms by (simp add: js_get_def)
  show ?thesis
    unfolding commitCallback_def Let_def using len rd by auto
qed

text \<open>A commit that has just been made is not made again.\<close>

lemma commitCallback_again:
  assumes "commitCallback entries cursor s = Some (entries', cursor')"
  shows "commitCallback entries' cursor' s = None"
proof -
  have e: "entries' = take (cursor + 1) entries @ [s]" and c: "cursor' = length entries' - 1"
    using assms by (auto simp: commitCallback_def Let_def split: if_splits)
  have "cursor' + 1 = length entries'"
    using e c by simp
  then have "take (cursor' + 1) entries' = entries'"
    by simp
  moreover have "js_get entries' (int (length entries') - 1) = Some s"
    unfolding e by (simp add: js_get_def nth_append)
  ultimately show ?thesis by (simp add: commitCallback_def)
qed

lemma clearPending_fields [simp]:
  "content (clearPending st) = content st"
  "history (clearPending st) = history st"
  "historyIndex (clearPending st) = historyIndex st"
  "isNavigatingHistory (clearPending st) = isNavigatingHistory st"
  "hasCleanup (clearPending st) = hasCleanup st"
  "debounceTimer (clearPending st) = debounceTimer st"
  "lastHandle (clearPending st) = lastHandle st"
  by (simp_all add: clearPending_def clearTimeout_def split: option.splits)

lemma cleanup_fields [simp]:
  "content (cleanup st) = content st"
  "history (cleanup st) = history st"
  "historyIndex (cleanup st) = historyIndex st"
  "isNavigatingHistory (cleanup st) = isNavigatingHistory st"
  "hasCleanup (cleanup st) = hasCleanup st"
  "debounceTimer (cleanup st) = debounceTimer st"
  "lastHandle (cleanup st) = lastHandle st"
  by (simp_all add: cleanup_def)

lemma clearPending_timers: "clearPending st = st\<lparr>timers := timers (clearPending st)\<rparr>"
  by (simp add: clearPending_def clearTimeout_def split: option.splits)

lemma cleanup_timers: "cleanup st = st\<lparr>timers := timers (cleanup st)\<rparr>"
  using clearPending_timers [of st] by (simp add: cleanup_def)

lemma tidy_clearPending: "tidy st \<Longrightarrow> timers (clearPending st) = []"
  by (auto simp: tidy_def clearPending_def clearTimeout_def split: list.splits option.splits)

lemma tidy_cleanup: "tidy st \<Longrightarrow> timers (cleanup st) = []"
  by (auto simp: tidy_def cleanup_def clearPending_def clearTimeout_def
      split: list.splits option.splits)

lemma cleanup_tidy_eq: "tidy st \<Longrightarrow> cleanup st = st\<lparr>timers := []\<rparr>"
  using cleanup_timers [of st] tidy_cleanup [of st] by simp

lemma clearPending_no_timers: "timers st = [] \<Longrightarrow> clearPending st = st"
  by (simp add: clearPending_def clearTimeout_def split: option.splits)

lemma effect_flag:
  "isNavigatingHistory st \<Longrightarrow> effect st = st\<lparr>isNavigatingHistory := False, hasCleanup := False\<rparr>"
  by (simp add: effect_def)

lemma effect_schedule:
  assumes "\<not> isNavigatingHistory st" "timers st = []"
  shows "effect st =
           st\<lparr>timers := [\<lparr>handle = Suc (lastHandle st), remaining = 500,
                           cap_content = content st, cap_history = history st,
                           cap_historyIndex = historyIndex st\<rparr>],
              lastHandle := Suc (lastHandle st),
              debounceTimer := Some (Suc (lastHandle st)), hasCleanup := True\<rparr>"
  using assms by (simp add: effect_def Let_def setTimeout_def clearPending_no_timers)

lemma navigated_render:
  assumes "historyIndex st1 \<noteq> historyIndex st" "isNavigatingHistory st1"
  shows "rerender st st1 = (cleanup st1)\<lparr>isNavigatingHistory := False, hasCleanup := False\<rparr>"
  using assms by (simp add: rerender_def effect_def)

lemma cleanup_upd [simp]:
  "cleanup (st\<lparr>isNavigatingHistory := g\<rparr>) = (cleanup st)\<lparr>isNavigatingHistory := g\<rparr>"
  "cleanup (st\<lparr>historyIndex := i\<rparr>) = (cleanup st)\<lparr>historyIndex := i\<rparr>"
  "cleanup (st\<lparr>content := c\<rparr>) = (cleanup st)\<lparr>content := c\<rparr>"
  "cleanup (st\<lparr>history := h\<rparr>) = (cleanup st)\<lparr>history := h\<rparr>"
  by (simp_all add: cleanup_def clearPending_def clearTimeout_def split: option.splits)

lemma undo_some:
  assumes "cursor_ok st" "0 < historyIndex st"
  shows "handleUndo st =
           Some (st\<lparr>isNavigatingHistory := True, historyIndex := historyIndex st - 1,
                    content := history st ! (historyIndex st - 1)\<rparr>)"
proof -
  have "historyIndex st - 1 < length (history st)"
    using assms by (simp add: cursor_ok_def)
  then have "js_get (history st) (int (historyIndex st - 1)) =
               Some (history st ! (historyIndex st - 1))"
    by (rule js_get_nat)
  then show ?thesis using assms by (simp add: handleUndo_def Let_def)
qed

lemma redo_some:
  assumes "int (historyIndex st) < int (length (history st)) - 1"
  shows "handleRedo st =
           Some (st\<lparr>isNavigatingHistory := True, historyIndex := historyIndex st + 1,
                    content := history st ! (historyIndex st + 1)\<rparr>)"
proof -
  have "historyIndex st + 1 < length (history st)" using assms by linarith
  then have "js_get (history st) (int (historyIndex st + 1)) =
               Some (history st ! (historyIndex st + 1))"
    by (rule js_get_nat)
  then show ?thesis using assms by (simp add: handleRedo_def Let_def)
qed

lemma handleUndo_cases:
  assumes "handleUndo st = Some st1"
  shows "(historyIndex st = 0 \<and> st1 = st)
       \<or> (0 < historyIndex st
          \<and> (\<exists>s. js_get (history st) (int (historyIndex st) - 1) = Some s
                \<and> st1 = st\<lparr>isNavigatingHistory := True, historyIndex := historyIndex st - 1,
                           content := s\<rparr>))"
proof (cases "0 < historyIndex st")
  case True
  then have "int (historyIndex st - 1) = int (historyIndex st) - 1" by simp
  then show ?thesis using assms True
    by (auto simp: handleUndo_def Let_def split: option.splits)
next
  case False
  then show ?thesis using assms by (simp add: handleUndo_def)
qed

lemma handleRedo_cases:
  assumes "handleRedo st = Some st1"
  shows "(\<not> int (historyIndex st) < int (length (history st)) - 1 \<and> st1 = st)
       \<or> (int (historyIndex st) < int (length (history st)) - 1
          \<and> (\<exists>s. js_get (history st) (int (historyIndex st) + 1) = Some s
                \<and> st1 = st\<lparr>isNavigatingHistory := True, historyIndex := historyIndex st + 1,
                           content := s\<rparr>))"
proof (cases "int (historyIndex st) < int (length (history st)) - 1")
  case True
  have "int (historyIndex st + 1) = int (historyIndex st) + 1" by simp
  then show ?thesis using assms True
    by (auto simp: handleRedo_def Let_def ac_simps split: option.splits)
next
  case False
  then show ?thesis using assms by (simp add: handleRedo_def)
qed

lemma step_undo:
  assumes "cursor_ok st" "0 < historyIndex st"
  shows "step Undo st =
           Some ((cleanup st)\<lparr>isNavigatingHistory := False, historyIndex := historyIndex st - 1,
                    content := history st ! (historyIndex st - 1), hasCleanup := False\<rparr>)"
proof -
  let ?st1 = "st\<lparr>isNavigatingHistory := True, historyIndex := historyIndex st - 1,
                 content := history st ! (historyIndex st - 1)\<rparr>"
  have "rerender st ?st1 = (cleanup ?st1)\<lparr>isNavigatingHistory := False, hasCleanup := False\<rparr>"
    using assms(2) by (intro navigated_render) simp_all
  then show ?thesis using undo_some [OF assms] by simp
qed

lemma step_undo_0: "historyIndex st = 0 \<Longrightarrow> step Undo st = Some st"
  by (simp add: handleUndo_def rerender_def)

lemma step_redo:
  assumes "int (historyIndex st) < int (length (history st)) - 1"
  shows "step Redo st =
           Some ((cleanup st)\<lparr>isNavigatingHistory := False, historyIndex := historyIndex st + 1,
                    content := history st ! (historyIndex st + 1), hasCleanup := False\<rparr>)"
proof -
  let ?st1 = "st\<lparr>isNavigatingHistory := True, historyIndex := historyIndex st + 1,
                 content := history st ! (historyIndex st + 1)\<rparr>"
  have "rerender st ?st1 = (cleanup ?st1)\<lparr>isNavigatingHistory := False, hasCleanup := False\<rparr>"
    by (intro navigated_render) simp_all
  then show ?thesis using redo_some [OF assms] by simp
qed

lemma step_redo_last:
  "\<not> int (historyIndex st) < int (length (history st)) - 1 \<Longrightarrow> step Redo st = Some st"
  by (simp add: handleRedo_def rerender_def)

lemma step_total:
  assumes "cursor_ok st"
  shows "\<exists>st'. step e st = Some st'"
proof (cases e)
  case (Change s)
  then show ?thesis by simp
next
  case Undo
  show ?thesis
  proof (cases "0 < historyIndex st")
    case True
    then show ?thesis unfolding Undo using step_undo [OF assms] by blast
  next
    case False
    then show ?thesis unfolding Undo using step_undo_0 [of st] by blast
  qed
next
  case Redo
  show ?thesis
  proof (cases "int (historyIndex st) < int (length (history st)) - 1")
    case True
    then show ?thesis unfolding Redo using step_redo [of st] by blast
  next
    case False
    then show ?thesis unfolding Redo using step_redo_last [of st] by blast
  qed
next
  case Tick
  then show ?thesis by simp
qed

lemma step_change_new:
  assumes "s \<noteq> content st" "\<not> isNavigatingHistory st" "tidy st"
  shows "step (Change s) st =
           Some (st\<lparr>content := s,
                    timers := [\<lparr>handle = Suc (lastHandle st), remaining = 500,
                                 cap_content = s, cap_history = history st,
                                 cap_historyIndex = historyIndex st\<rparr>],
                    lastHandle := Suc (lastHandle st),
                    debounceTimer := Some (Suc (lastHandle st)), hasCleanup := True\<rparr>)"
proof -
  let ?st1 = "(cleanup st)\<lparr>content := s\<rparr>"
  have "\<not> isNavigatingHistory ?st1" "timers ?st1 = []"
    using assms(2,3) by (simp_all add: tidy_cleanup)
  from effect_schedule [OF this] show ?thesis
    using assms(1) cleanup_tidy_eq [OF assms(3)]
    by (simp add: rerender_def handleContentChange_def)
qed

lemma tidy_owned: "tidy st \<Longrightarrow> owned st"
  by (auto simp: tidy_def owned_def split: list.splits)

lemma owned_clearPending: "owned st \<Longrightarrow> timers (clearPending st) = []"
  by (cases "timers st")
    (auto simp: owned_def clearPending_def clearTimeout_def list_all_iff filter_empty_conv
      split: option.splits)

lemma owned_cleanup: "owned st \<Longrightarrow> owned (cleanup st)"
  by (auto simp: owned_def cleanup_def clearPending_def clearTimeout_def list_all_iff
      split: option.splits)

lemma effect_owned:
  assumes "\<not> isNavigatingHistory st" "owned st"
  shows "effect st = effect (st\<lparr>timers := []\<rparr>)"
proof -
  have "clearPending st = st\<lparr>timers := []\<rparr>"
    using clearPending_timers [of st] owned_clearPending [OF assms(2)] by simp
  moreover have "clearPending (st\<lparr>timers := []\<rparr>) = st\<lparr>timers := []\<rparr>"
    by (rule clearPending_no_timers) simp
  ultimately show ?thesis using assms(1) by (simp add: effect_def)
qed

lemma cleanup_drop_timers: "(cleanup st)\<lparr>timers := []\<rparr> = st\<lparr>timers := []\<rparr>"
  by (simp add: cleanup_def clearPending_def clearTimeout_def split: option.splits)

lemma cleanup_no_timers: "timers st = [] \<Longrightarrow> cleanup st = st"
  by (simp add: cleanup_def clearPending_no_timers)

lemma effect_cleanup_owned:
  assumes "\<not> isNavigatingHistory st1" "owned st1"
  shows "effect (cleanup st1) = effect (cleanup (st1\<lparr>timers := []\<rparr>))"
proof -
  have o: "owned (cleanup st1)" using assms(2) by (rule owned_cleanup)
  have n: "\<not> isNavigatingHistory (cleanup st1)" using assms(1) by simp
  have "effect (cleanup st1) = effect ((cleanup st1)\<lparr>timers := []\<rparr>)"
    using n o by (rule effect_owned)
  also have "\<dots> = effect (st1\<lparr>timers := []\<rparr>)"
    by (simp only: cleanup_drop_timers)
  also have "\<dots> = effect (cleanup (st1\<lparr>timers := []\<rparr>))"
    by (simp add: cleanup_no_timers)
  finally show ?thesis .
qed

lemma step_change_owned:
  assumes "s \<noteq> content st" "\<not> isNavigatingHistory st" "owned st"
  shows "step (Change s) st = step (Change s) (st\<lparr>timers := []\<rparr>)"
proof -
  let ?a = "handleContentChange s st"
  have e: "handleContentChange s (st\<lparr>timers := []\<rparr>) = ?a\<lparr>timers := []\<rparr>"
    by (simp add: handleContentChange_def)
  have "effect (cleanup ?a) = effect (cleanup (?a\<lparr>timers := []\<rparr>))"
    using assms(2,3) by (intro effect_cleanup_owned) (simp_all add: owned_def handleContentChange_def)
  moreover have "rerender st ?a = effect (cleanup ?a)"
    using assms(1) by (simp add: rerender_def handleContentChange_def)
  moreover have "rerender (st\<lparr>timers := []\<rparr>) (?a\<lparr>timers := []\<rparr>) = effect (cleanup (?a\<lparr>timers := []\<rparr>))"
    using assms(1) by (simp add: rerender_def handleContentChange_def)
  ultimately show ?thesis by (simp only: step.simps e)
qed

lemma step_change_same: "step (Change (content st)) st = Some st"
  by (simp add: rerender_def handleContentChange_def)

lemma callback_indep: "callback (p\<lparr>remaining := r\<rparr>) st = callback p st"
  by (simp add: callback_def)

lemma tick_idle:
  "timers st = [] \<Longrightarrow> tick st = st"
  "timers st = [] \<Longrightarrow> callbacks_run (due st) (age st) = 0"
  by (simp_all add: tick_def due_def age_def)

lemma tick_wait:
  assumes "timers st = [p]" "1 < remaining p"
  shows "tick st = st\<lparr>timers := [p\<lparr>remaining := remaining p - 1\<rparr>]\<rparr>"
    and "callbacks_run (due st) (age st) = 0"
  using assms by (simp_all add: tick_def due_def age_def)

lemma tick_fire:
  assumes "timers st = [p]" "remaining p \<le> 1"
  shows "tick st = callback p (st\<lparr>timers := []\<rparr>)"
    and "callbacks_run (due st) (age st) = 1"
  using assms by (simp_all add: tick_def due_def age_def expire_def callback_indep)

text \<open>The stack after the callback of a timeout set in the current render.\<close>

lemma callback_current:
  assumes "cap_content p = content st" "cap_history p = history st"
    "cap_historyIndex p = historyIndex st"
  shows "(history (callback p st), historyIndex (callback p st)) =
           commit (content st) (history st, historyIndex st)"
    and "content (callback p st) = content st"
  using assms
  by (auto simp: callback_def commit_def effect_def Let_def setTimeout_def
      split: option.splits)

lemma callback_flag:
  "\<not> isNavigatingHistory st \<Longrightarrow> \<not> isNavigatingHistory (callback p st)"
  by (auto simp: callback_def effect_def Let_def setTimeout_def split: option.splits)

lemma callback_noop:
  "commitCallback (cap_history p) (cap_historyIndex p) (cap_content p) = None
   \<Longrightarrow> callback p st = st"
  by (simp add: callback_def)

lemma callback_commit:
  assumes "commitCallback (cap_history p) (cap_historyIndex p) (cap_content p) = Some (h, i)"
    "\<not> isNavigatingHistory st" "timers st = []"
  shows "callback p st =
           st\<lparr>history := h, historyIndex := i,
              timers := [\<lparr>handle = Suc (lastHandle st), remaining = 500,
                           cap_content = content st, cap_history = h,
                           cap_historyIndex = i\<rparr>],
              lastHandle := Suc (lastHandle st),
              debounceTimer := Some (Suc (lastHandle st)), hasCleanup := True\<rparr>"
proof -
  let ?st1 = "(cleanup st)\<lparr>history := h, historyIndex := i\<rparr>"
  have t: "tidy st" using assms(3) by (simp add: tidy_def)
  have "\<not> isNavigatingHistory ?st1" "timers ?st1 = []"
    using assms(2) t by (simp_all add: tidy_cleanup)
  from effect_schedule [OF this] show ?thesis
    using assms(1) cleanup_tidy_eq [OF t] assms(3) by (simp add: callback_def)
qed


lemma mount_eq:
  "mount = \<lparr>content = INITIAL_CONTENT, history = [INITIAL_CONTENT], historyIndex = 0,
            isNavigatingHistory = False, debounceTimer = Some 1, hasCleanup = True,
            timers = [\<lparr>handle = 1, remaining = 500, cap_content = INITIAL_CONTENT,
                        cap_history = [INITIAL_CONTENT], cap_historyIndex = 0\<rparr>],
            lastHandle = 1\<rparr>"
  by (simp add: mount_def effect_def Let_def setTimeout_def clearPending_def)

lemma INITIAL_CONTENT_long: "100 < length INITIAL_CONTENT"
  by (simp add: INITIAL_CONTENT_def)

lemma INITIAL_CONTENT_neq:
  "length s \<le> 100 \<Longrightarrow> s \<noteq> INITIAL_CONTENT"
  "length s \<le> 100 \<Longrightarrow> INITIAL_CONTENT \<noteq> s"
  using INITIAL_CONTENT_long by auto

section \<open>Runs\<close>

lemma run_append:
  "run (es1 @ es2) st = (case run es1 st of None \<Rightarrow> None | Some st1 \<Rightarrow> run es2 st1)"
  by (induction es1 arbitrary: st) (auto split: option.splits)

lemma fired_append:
  "fired (es1 @ es2) st =
     (case run es1 st of None \<Rightarrow> fired es1 st | Some st1 \<Rightarrow> fired es1 st + fired es2 st1)"
  by (induction es1 arbitrary: st) (auto split: option.splits)

lemma run_idle:
  "timers st = [] \<Longrightarrow> run (replicate n Tick) st = Some st \<and> fired (replicate n Tick) st = 0"
  by (induction n) (simp_all add: tick_idle)

lemma run_wait:
  assumes "timers st = [p]" "n < remaining p"
  shows "run (replicate n Tick) st = Some (st\<lparr>timers := [p\<lparr>remaining := remaining p - n\<rparr>]\<rparr>)
         \<and> fired (replicate n Tick) st = 0"
  using assms
proof (induction n arbitrary: st p)
  case 0
  then show ?case by simp
next
  case (Suc n)
  let ?p = "p\<lparr>remaining := remaining p - 1\<rparr>"
  let ?st = "st\<lparr>timers := [?p]\<rparr>"
  have t: "tick st = ?st" "callbacks_run (due st) (age st) = 0"
    using tick_wait [of st p] Suc.prems by simp_all
  have "timers ?st = [?p]" "n < remaining ?p" using Suc.prems by simp_all
  from Suc.IH [OF this] show ?case using t by simp
qed

lemma run_wait_fire:
  assumes "timers st = [p]" "remaining p = Suc n"
  shows "run (replicate (Suc n) Tick) st = Some (callback p (st\<lparr>timers := []\<rparr>))
         \<and> fired (replicate (Suc n) Tick) st = 1"
proof -
  let ?p = "p\<lparr>remaining := 1\<rparr>"
  let ?st = "st\<lparr>timers := [?p]\<rparr>"
  have w: "run (replicate n Tick) st = Some ?st" "fired (replicate n Tick) st = 0"
    using run_wait [of st p n] assms by simp_all
  have t: "tick ?st = callback p (st\<lparr>timers := []\<rparr>)" "callbacks_run (due ?st) (age ?st) = 1"
    using tick_fire [of ?st ?p] by (simp_all add: callback_indep)
  have r: "replicate (Suc n) Tick = replicate n Tick @ [Tick]"
    by (simp add: replicate_append_same)
  show ?thesis
    unfolding r using w t by (simp add: run_append fired_append)
qed

text \<open>
  A pending timeout whose callback will find its snapshot at the cursor: whatever time
  passes, content and stack stay, and the callback runs once, when the time is up.
\<close>

lemma run_settle:
  assumes "timers st = [p]" "0 < remaining p"
    "commitCallback (cap_history p) (cap_historyIndex p) (cap_content p) = None"
  shows "\<exists>st'. run (replicate n Tick) st = Some st'
           \<and> content st' = content st \<and> history st' = history st
           \<and> historyIndex st' = historyIndex st
           \<and> fired (replicate n Tick) st = (if n < remaining p then 0 else 1)"
proof (cases "n < remaining p")
  case True
  from run_wait [OF assms(1) True] show ?thesis using True by simp
next
  case False
  obtain k where k: "remaining p = Suc k" using assms(2) by (cases "remaining p") auto
  obtain m where n: "n = Suc k + m" using False k by (metis le_Suc_ex not_less)
  let ?st1 = "st\<lparr>timers := []\<rparr>"
  have f: "run (replicate (Suc k) Tick) st = Some ?st1" "fired (replicate (Suc k) Tick) st = 1"
    using run_wait_fire [OF assms(1) k] callback_noop [OF assms(3)] by simp_all
  have i: "run (replicate m Tick) ?st1 = Some ?st1" "fired (replicate m Tick) ?st1 = 0"
    using run_idle [of ?st1 m] by simp_all
  have r: "replicate n Tick = replicate (Suc k) Tick @ replicate m Tick"
    unfolding n by (simp only: replicate_add)
  have "run (replicate n Tick) st = Some ?st1" "fired (replicate n Tick) st = 1"
    unfolding r by (simp_all only: run_append fired_append f i option.case add_0_right)
  then show ?thesis using False by simp
qed


text \<open>An edit, then nothing but time.\<close>

lemma change_then_wait:
  assumes "\<not> isNavigatingHistory st" "tidy st" "s \<noteq> content st" "n < 500"
  shows "\<exists>st1. run (Change s # replicate n Tick) st = Some st1
           \<and> fired (Change s # replicate n Tick) st = 0
           \<and> history st1 = history st \<and> historyIndex st1 = historyIndex st
           \<and> content st1 = s \<and> \<not> isNavigatingHistory st1 \<and> tidy st1"
proof -
  let ?p = "\<lparr>handle = Suc (lastHandle st), remaining = 500, cap_content = s,
             cap_history = history st, cap_historyIndex = historyIndex st\<rparr>"
  let ?sa = "st\<lparr>content := s, timers := [?p], lastHandle := Suc (lastHandle st),
                debounceTimer := Some (Suc (lastHandle st)), hasCleanup := True\<rparr>"
  let ?sb = "?sa\<lparr>timers := [?p\<lparr>remaining := remaining ?p - n\<rparr>]\<rparr>"
  have c: "step (Change s) st = Some ?sa"
    using assms(3,1,2) by (rule step_change_new)
  have w: "run (replicate n Tick) ?sa = Some ?sb" "fired (replicate n Tick) ?sa = 0"
    using run_wait [of ?sa ?p n] assms(4) by simp_all
  have "run (Change s # replicate n Tick) st = Some ?sb"
    "fired (Change s # replicate n Tick) st = 0"
    using c w by (simp_all del: step.simps)
  moreover have "tidy ?sb" by (simp add: tidy_def)
  ultimately show ?thesis using assms(1) by simp
qed

lemma change_then_time:
  assumes "\<not> isNavigatingHistory st" "tidy st" "s \<noteq> content st" "500 \<le> n"
  shows "\<exists>st2. run (Change s # replicate n Tick) st = Some st2
           \<and> (history st2, historyIndex st2) = commit s (history st, historyIndex st)
           \<and> content st2 = s
           \<and> fired (Change s # replicate n Tick) st =
               (if n < 1000 \<or> commitCallback (history st) (historyIndex st) s = None
                then 1 else 2)"
proof -
  let ?p = "\<lparr>handle = Suc (lastHandle st), remaining = 500, cap_content = s,
             cap_history = history st, cap_historyIndex = historyIndex st\<rparr>"
  let ?sa = "st\<lparr>content := s, timers := [?p], lastHandle := Suc (lastHandle st),
                debounceTimer := Some (Suc (lastHandle st)), hasCleanup := True\<rparr>"
  let ?s0 = "?sa\<lparr>timers := []\<rparr>"
  let ?s1 = "callback ?p ?s0"
  obtain m where n: "n = 500 + m" using assms(4) by (metis le_Suc_ex)
  have c: "step (Change s) st = Some ?sa"
    using assms(3,1,2) by (rule step_change_new)
  have w: "run (replicate 500 Tick) ?sa = Some ?s1" "fired (replicate 500 Tick) ?sa = 1"
    using run_wait_fire [of ?sa ?p 499] by simp_all
  have k: "(history ?s1, historyIndex ?s1) = commit s (history st, historyIndex st)"
    "content ?s1 = s"
    using callback_current [of ?p ?s0] by simp_all
  have rest: "\<exists>st2. run (replicate m Tick) ?s1 = Some st2
           \<and> content st2 = content ?s1 \<and> history st2 = history ?s1
           \<and> historyIndex st2 = historyIndex ?s1
           \<and> fired (replicate m Tick) ?s1 =
               (if m < 500 \<or> commitCallback (history st) (historyIndex st) s = None
                then 0 else 1)"
  proof (cases "commitCallback (history st) (historyIndex st) s")
    case None
    then have "?s1 = ?s0" by (intro callback_noop) simp
    moreover have "run (replicate m Tick) ?s0 = Some ?s0" "fired (replicate m Tick) ?s0 = 0"
      using run_idle [of ?s0 m] by simp_all
    ultimately show ?thesis using None by simp
  next
    case (Some r)
    obtain h i where r: "r = (h, i)" by (cases r)
    let ?q = "\<lparr>handle = Suc (lastHandle ?s0), remaining = 500, cap_content = content ?s0,
               cap_history = h, cap_historyIndex = i\<rparr>"
    have cc: "commitCallback (cap_history ?p) (cap_historyIndex ?p) (cap_content ?p) = Some (h, i)"
      using Some r by simp
    have e: "?s1 = ?s0\<lparr>history := h, historyIndex := i, timers := [?q],
                lastHandle := Suc (lastHandle ?s0),
                debounceTimer := Some (Suc (lastHandle ?s0)), hasCleanup := True\<rparr>"
      using assms(1) by (intro callback_commit [OF cc]) simp_all
    have t: "timers ?s1 = [?q]" by (subst e) simp
    have again: "commitCallback (cap_history ?q) (cap_historyIndex ?q) (cap_content ?q) = None"
      using commitCallback_again [of "history st" "historyIndex st" s h i] Some r by simp
    have "0 < remaining ?q" by simp
    from run_settle [OF t this again, of m] show ?thesis using Some by simp
  qed
  then obtain st2 where
    r2: "run (replicate m Tick) ?s1 = Some st2"
    and k2: "content st2 = content ?s1" "history st2 = history ?s1"
      "historyIndex st2 = historyIndex ?s1"
    and f2: "fired (replicate m Tick) ?s1 =
               (if m < 500 \<or> commitCallback (history st) (historyIndex st) s = None
                then 0 else 1)"
    by blast
  have es: "Change s # replicate n Tick = [Change s] @ replicate 500 Tick @ replicate m Tick"
    unfolding n by (simp only: replicate_add append_Cons append_Nil)
  have c1: "run [Change s] st = Some ?sa" "fired [Change s] st = 0"
    using c by (simp_all del: step.simps)
  have "run (Change s # replicate n Tick) st = Some st2"
    unfolding es by (simp only: run_append c1 w r2 option.case)
  moreover have "fired (Change s # replicate n Tick) st
                   = 0 + (1 + fired (replicate m Tick) ?s1)"
    unfolding es by (simp only: run_append fired_append c1 w r2 option.case)
  moreover have "(m < 500) = (n < 1000)" using n by simp
  ultimately show ?thesis using k k2 f2 by simp
qed

lemma typing_run:
  assumes "\<not> isNavigatingHistory st" "tidy st" "\<forall>(x, gap) \<in> set ps. gap < 500"
    "distinct_adj (content st # map fst ps)"
  shows "\<exists>st1. run (typing ps) st = Some st1 \<and> fired (typing ps) st = 0
           \<and> history st1 = history st \<and> historyIndex st1 = historyIndex st
           \<and> \<not> isNavigatingHistory st1 \<and> tidy st1
           \<and> content st1 = last (content st # map fst ps)"
  using assms
proof (induction ps arbitrary: st)
  case Nil
  then show ?case by simp
next
  case (Cons a ps)
  obtain s gap where a: "a = (s, gap)" by (cases a)
  have ne: "s \<noteq> content st" and gap: "gap < 500"
    using Cons.prems a by auto
  from change_then_wait [OF Cons.prems(1,2) ne gap] obtain sb where
    w: "run (Change s # replicate gap Tick) st = Some sb"
    "fired (Change s # replicate gap Tick) st = 0"
    and kb: "history sb = history st" "historyIndex sb = historyIndex st" "content sb = s"
      "\<not> isNavigatingHistory sb" "tidy sb"
    by blast
  have "\<forall>(x, gap) \<in> set ps. gap < 500" "distinct_adj (content sb # map fst ps)"
    using Cons.prems a kb by simp_all
  from Cons.IH [OF kb(4,5) this] obtain st1 where
    r: "run (typing ps) sb = Some st1" and f: "fired (typing ps) sb = 0"
    and k: "history st1 = history sb" "historyIndex st1 = historyIndex sb"
      "\<not> isNavigatingHistory st1" "tidy st1" "content st1 = last (content sb # map fst ps)"
    by blast
  have es: "typing (a # ps) = (Change s # replicate gap Tick) @ typing ps"
    by (simp add: a)
  have "run (typing (a # ps)) st = Some st1" "fired (typing (a # ps)) st = 0"
    unfolding es by (simp_all only: run_append fired_append w r f option.case add_0)
  then show ?case using k kb a by simp
qed




text \<open>
  What the clear is for. Let the content \<open>a\<close> wait for its commit with 2 time units left,
  and let the ref have lost the handle of that timeout. The edit \<open>ab\<close> then clears nothing:
  two timeouts are pending, and 2 time units after the edit the older one commits \<open>a\<close>.
  With the handle in the ref the edit clears the timeout, and nothing is committed until
  500 time units have passed.
\<close>

lemma uncleared_timeout_commits:
  "map_option (\<lambda>st. (history st, historyIndex st))
     (run [Change ''ab'', Tick, Tick]
        \<lparr>content = ''a'', history = [''i''], historyIndex = 0, isNavigatingHistory = False,
         debounceTimer = None, hasCleanup = True,
         timers = [\<lparr>handle = 2, remaining = 2, cap_content = ''a'', cap_history = [''i''],
                     cap_historyIndex = 0\<rparr>],
         lastHandle = 2\<rparr>)
     = Some ([''i'', ''a''], 1)
   \<and> map_option (\<lambda>st. (history st, historyIndex st))
     (run [Change ''ab'', Tick, Tick]
        \<lparr>content = ''a'', history = [''i''], historyIndex = 0, isNavigatingHistory = False,
         debounceTimer = Some 2, hasCleanup = True,
         timers = [\<lparr>handle = 2, remaining = 2, cap_content = ''a'', cap_history = [''i''],
                     cap_historyIndex = 0\<rparr>],
         lastHandle = 2\<rparr>)
     = Some ([''i''], 0)"
  by (simp add: rerender_def handleContentChange_def cleanup_def clearPending_def
      clearTimeout_def effect_def setTimeout_def Let_def tick_def due_def age_def expire_def
      callback_def commitCallback_def js_get_def)

section \<open>The invariant\<close>

lemma inv_mount: "app_inv mount"
  by (simp add: app_inv_def cursor_ok_def synced_def tidy_def mount_eq js_get_def)

lemma inv_change:
  assumes i: "app_inv st"
  shows "app_inv (rerender st (handleContentChange s st))"
proof (cases "s = content st")
  case True
  then show ?thesis using i by (simp add: rerender_def handleContentChange_def)
next
  case False
  have g: "\<not> isNavigatingHistory st" and t: "tidy st" using i by (simp_all add: app_inv_def)
  have "step (Change s) st = Some (rerender st (handleContentChange s st))" by simp
  then have "rerender st (handleContentChange s st) =
           st\<lparr>content := s,
                    timers := [\<lparr>handle = Suc (lastHandle st), remaining = 500,
                                 cap_content = s, cap_history = history st,
                                 cap_historyIndex = historyIndex st\<rparr>],
                    lastHandle := Suc (lastHandle st),
                    debounceTimer := Some (Suc (lastHandle st)), hasCleanup := True\<rparr>"
    using step_change_new [OF False g t] by (simp del: step.simps)
  then show ?thesis using i
    by (simp add: app_inv_def cursor_ok_def synced_def tidy_def)
qed

lemma inv_undo:
  assumes i: "app_inv st"
  shows "\<exists>st'. step Undo st = Some st' \<and> app_inv st'"
proof (cases "0 < historyIndex st")
  case True
  have w: "cursor_ok st" and t: "tidy st" using i by (simp_all add: app_inv_def)
  have "app_inv ((cleanup st)\<lparr>isNavigatingHistory := False, historyIndex := historyIndex st - 1,
                    content := history st ! (historyIndex st - 1), hasCleanup := False\<rparr>)"
    using i True tidy_cleanup [OF t]
    by (auto simp: app_inv_def cursor_ok_def synced_def tidy_def)
  then show ?thesis using step_undo [OF w True] by blast
next
  case False
  then show ?thesis using step_undo_0 [of st] i by blast
qed

lemma inv_redo:
  assumes i: "app_inv st"
  shows "\<exists>st'. step Redo st = Some st' \<and> app_inv st'"
proof (cases "int (historyIndex st) < int (length (history st)) - 1")
  case True
  have t: "tidy st" using i by (simp add: app_inv_def)
  have "historyIndex st + 1 < length (history st)" using True by linarith
  then have "app_inv ((cleanup st)\<lparr>isNavigatingHistory := False, historyIndex := historyIndex st + 1,
                    content := history st ! (historyIndex st + 1), hasCleanup := False\<rparr>)"
    using i tidy_cleanup [OF t]
    by (auto simp: app_inv_def cursor_ok_def synced_def tidy_def)
  then show ?thesis using step_redo [OF True] by blast
next
  case False
  then show ?thesis using step_redo_last [OF False] i by blast
qed

lemma distinct_adj_push:
  assumes "distinct_adj xs" "i < length xs" "s \<noteq> xs ! i"
  shows "distinct_adj (take (Suc i) xs @ [s])"
proof -
  have t: "take (Suc i) xs = take i xs @ [xs ! i]"
    using assms(2) by (rule take_Suc_conv_app_nth)
  have "distinct_adj (take (Suc i) xs)"
    using assms(1) by (metis append_take_drop_id distinct_adj_appendD1)
  then show ?thesis using assms(3)
    by (simp add: t distinct_adj_append_iff)
qed

lemma js_get_0_push:
  "js_get xs 0 = Some a \<Longrightarrow> js_get (take (Suc i) xs @ [s]) 0 = Some a"
  by (cases xs) (auto simp: js_get_def)

lemma inv_tick:
  assumes i: "app_inv st"
  shows "app_inv (tick st)"
proof (cases "timers st")
  case Nil
  then show ?thesis using i by (simp add: tick_idle)
next
  case (Cons p ps)
  have t: "tidy st" using i by (simp add: app_inv_def)
  then have ps: "ps = []" using Cons by (simp add: tidy_def split: list.splits)
  have tm: "timers st = [p]" using Cons ps by simp
  have s: "cap_content p = content st" "cap_history p = history st"
      "cap_historyIndex p = historyIndex st"
    using i tm by (simp_all add: app_inv_def synced_def)
  have w: "historyIndex st < length (history st)" and g: "\<not> isNavigatingHistory st"
    using i by (simp_all add: app_inv_def cursor_ok_def)
  show ?thesis
  proof (cases "remaining p \<le> 1")
    case False
    then have "tick st = st\<lparr>timers := [p\<lparr>remaining := remaining p - 1\<rparr>]\<rparr>"
      using tick_wait [OF tm] by simp
    then show ?thesis using i tm s
      by (simp add: app_inv_def cursor_ok_def synced_def tidy_def)
  next
    case True
    let ?s0 = "st\<lparr>timers := []\<rparr>"
    have f: "tick st = callback p ?s0" using tick_fire [OF tm True] by simp
    have cc: "commitCallback (cap_history p) (cap_historyIndex p) (cap_content p) =
           (if content st = history st ! historyIndex st then None
            else Some (take (Suc (historyIndex st)) (history st) @ [content st],
                       Suc (historyIndex st)))"
      unfolding s using w by (rule commitCallback_in_range)
    show ?thesis
    proof (cases "content st = history st ! historyIndex st")
      case True
      then have "callback p ?s0 = ?s0" using cc by (intro callback_noop) simp
      then show ?thesis using i f
        by (simp add: app_inv_def cursor_ok_def synced_def tidy_def)
    next
      case False
      let ?h = "take (Suc (historyIndex st)) (history st) @ [content st]"
      have "commitCallback (cap_history p) (cap_historyIndex p) (cap_content p) =
              Some (?h, Suc (historyIndex st))"
        using cc False by simp
      from callback_commit [OF this, of ?s0] g
      have e: "callback p ?s0 =
           ?s0\<lparr>history := ?h, historyIndex := Suc (historyIndex st),
              timers := [\<lparr>handle = Suc (lastHandle st), remaining = 500,
                           cap_content = content st, cap_history = ?h,
                           cap_historyIndex = Suc (historyIndex st)\<rparr>],
              lastHandle := Suc (lastHandle st),
              debounceTimer := Some (Suc (lastHandle st)), hasCleanup := True\<rparr>"
        by simp
      have "distinct_adj ?h"
        using i False w by (intro distinct_adj_push) (simp_all add: app_inv_def)
      then show ?thesis using i w
        by (simp add: f e app_inv_def cursor_ok_def synced_def tidy_def js_get_0_push)
    qed
  qed
qed

lemma inv_step:
  assumes i: "app_inv st"
  shows "\<exists>st'. step e st = Some st' \<and> app_inv st'"
proof (cases e)
  case (Change s)
  then show ?thesis using i by (simp add: inv_change)
next
  case Undo
  then show ?thesis using inv_undo [OF i] by simp
next
  case Redo
  then show ?thesis using inv_redo [OF i] by simp
next
  case Tick
  then show ?thesis using i by (simp add: inv_tick)
qed

lemma inv_run: "app_inv st \<Longrightarrow> \<exists>st'. run es st = Some st' \<and> app_inv st'"
proof (induction es arbitrary: st)
  case Nil
  then show ?case by simp
next
  case (Cons e es)
  from inv_step [OF Cons.prems, of e]
  obtain st1 where s: "step e st = Some st1" and i: "app_inv st1"
    by blast
  from Cons.IH [OF i] show ?case using s by simp
qed

lemma reachable_inv: "\<exists>st. run es mount = Some st \<and> app_inv st"
  by (rule inv_run [OF inv_mount])

lemma reached_inv:
  assumes "run es mount = Some st"
  shows "app_inv st"
  using reachable_inv [of es] assms by auto


lemma first_commit:
  assumes "length s \<le> 100"
  shows "run (Change s # replicate 500 Tick) mount =
           Some \<lparr>content = s, history = [INITIAL_CONTENT, s], historyIndex = 1,
                 isNavigatingHistory = False, debounceTimer = Some 3, hasCleanup = True,
                 timers = [\<lparr>handle = 3, remaining = 500, cap_content = s,
                             cap_history = [INITIAL_CONTENT, s], cap_historyIndex = 1\<rparr>],
                 lastHandle = 3\<rparr>"
proof -
  let ?I = INITIAL_CONTENT
  let ?p1 = "\<lparr>handle = 2, remaining = 500, cap_content = s, cap_history = [?I],
              cap_historyIndex = 0\<rparr>"
  let ?s1 = "\<lparr>content = s, history = [?I], historyIndex = 0, isNavigatingHistory = False,
       debounceTimer = Some 2, hasCleanup = True, timers = [?p1], lastHandle = 2\<rparr>"
  have n: "s \<noteq> ?I" using assms by (rule INITIAL_CONTENT_neq)
  have c1: "step (Change s) mount = Some ?s1"
    using step_change_new [of s mount] n by (simp add: mount_eq tidy_def)
  have cc: "commitCallback (cap_history ?p1) (cap_historyIndex ?p1) (cap_content ?p1)
              = Some ([?I, s], 1)"
    using n by (simp add: commitCallback_in_range)
  have w1: "run (replicate 500 Tick) ?s1 = Some (callback ?p1 (?s1\<lparr>timers := []\<rparr>))"
    using run_wait_fire [of ?s1 ?p1 499] by simp
  have f1: "callback ?p1 (?s1\<lparr>timers := []\<rparr>) =
           \<lparr>content = s, history = [?I, s], historyIndex = 1,
                 isNavigatingHistory = False, debounceTimer = Some 3, hasCleanup = True,
                 timers = [\<lparr>handle = 3, remaining = 500, cap_content = s,
                             cap_history = [?I, s], cap_historyIndex = 1\<rparr>],
                 lastHandle = 3\<rparr>"
    using callback_commit [OF cc, of "?s1\<lparr>timers := []\<rparr>"] by simp
  show ?thesis
    using c1 w1 f1 by (simp only: run.simps option.case)
qed

section \<open>The commit and the debounce\<close>

text \<open>
  C1. On a stack whose cursor is an index of the entries whenever there are entries,
  \<open>commit s\<close> changes nothing when \<open>s\<close> is the entry at the cursor; otherwise the entries
  become the entries up to and including the cursor followed by \<open>s\<close>, and the cursor
  becomes the last index of the new entries.
\<close>

theorem commit_spec:
  assumes "entries \<noteq> [] \<Longrightarrow> cursor < length entries"
  shows "commit s (entries, cursor) =
           (if js_get entries (int cursor) = Some s then (entries, cursor)
            else (take (cursor + 1) entries @ [s],
                  length (take (cursor + 1) entries @ [s]) - 1))"
proof (cases "entries = []")
  case True
  then show ?thesis by (simp add: commit_def commitCallback_def js_get_def)
next
  case False
  then have "cursor < length entries" by (rule assms)
  then show ?thesis
    by (auto simp: commit_def commitCallback_in_range js_get_nat)
qed

theorem commit_spec_witness:
  "(1::nat) < length [''a'', ''b'', ''c'']
   \<and> commit ''b'' ([''a'', ''b'', ''c''], 1) = ([''a'', ''b'', ''c''], 1)
   \<and> commit ''d'' ([''a'', ''b'', ''c''], 1) = ([''a'', ''b'', ''d''], 2)
   \<and> commit ''d'' ([], 0) = ([''d''], 0)"
  using commit_spec [of "[''a'', ''b'', ''c'']" 1 "''b''"]
        commit_spec [of "[''a'', ''b'', ''c'']" 1 "''d''"]
        commit_spec [of "[]" 0 "''d''"]
  by (simp add: js_get_def)

text \<open>
  C2 (as amended). In a state reached from the mount, let snapshots arrive one after the
  other, each different from the content current at its arrival and each less than 500 time
  units after the one before, with no undo or redo. Then no timeout callback runs and the
  stack stays as it was until 500 time units after the last arrival. At that moment one
  callback runs and commits the last snapshot supplied, and however much more time passes,
  the stack stays what that one commit made it and the content stays that snapshot. When
  the commit changed the history, the effect has set one more timeout; its callback, 500
  time units later, finds the snapshot at the cursor and sets no state: it is the second
  and last callback to run.
\<close>

theorem debounce_coalesces:
  assumes "run es mount = Some st"
    and "\<forall>(x, gap) \<in> set ps. gap < 500"
    and "distinct_adj ((content st # map fst ps) @ [s])"
  shows "(\<forall>n<500. \<exists>st1. run (typing ps @ Change s # replicate n Tick) st = Some st1
              \<and> fired (typing ps @ Change s # replicate n Tick) st = 0
              \<and> history st1 = history st \<and> historyIndex st1 = historyIndex st)
       \<and> (\<forall>n\<ge>500. \<exists>st2. run (typing ps @ Change s # replicate n Tick) st = Some st2
              \<and> (history st2, historyIndex st2) = commit s (history st, historyIndex st)
              \<and> content st2 = s
              \<and> fired (typing ps @ Change s # replicate n Tick) st =
                  (if n < 1000 \<or> commit s (history st, historyIndex st)
                                   = (history st, historyIndex st)
                   then 1 else 2))"
proof -
  have i: "app_inv st" using assms(1) by (rule reached_inv)
  then have g: "\<not> isNavigatingHistory st" and t: "tidy st" by (simp_all add: app_inv_def)
  have d: "distinct_adj (content st # map fst ps)" and l: "last (content st # map fst ps) \<noteq> s"
    using assms(3) unfolding distinct_adj_append_iff by simp_all
  from typing_run [OF g t assms(2) d] obtain st1 where
    r: "run (typing ps) st = Some st1" and f: "fired (typing ps) st = 0"
    and k: "history st1 = history st" "historyIndex st1 = historyIndex st"
      "\<not> isNavigatingHistory st1" "tidy st1" "content st1 = last (content st # map fst ps)"
    by blast
  have ne: "s \<noteq> content st1" using l k by simp
  have noop: "(commitCallback (history st) (historyIndex st) s = None)
                = (commit s (history st, historyIndex st) = (history st, historyIndex st))"
    by (auto simp: commit_def commitCallback_def Let_def split: if_splits)
  have quiet: "\<exists>st'. run (typing ps @ Change s # replicate n Tick) st = Some st'
              \<and> fired (typing ps @ Change s # replicate n Tick) st = 0
              \<and> history st' = history st \<and> historyIndex st' = historyIndex st"
    if n: "n < 500" for n
  proof -
    from change_then_wait [OF k(3,4) ne n] obtain sb where
      "run (Change s # replicate n Tick) st1 = Some sb"
      "fired (Change s # replicate n Tick) st1 = 0"
      "history sb = history st1" "historyIndex sb = historyIndex st1"
      by blast
    then show ?thesis using r f k by (simp add: run_append fired_append del: run.simps fired.simps)
  qed
  have later: "\<exists>st2. run (typing ps @ Change s # replicate n Tick) st = Some st2
              \<and> (history st2, historyIndex st2) = commit s (history st, historyIndex st)
              \<and> content st2 = s
              \<and> fired (typing ps @ Change s # replicate n Tick) st =
                  (if n < 1000 \<or> commit s (history st, historyIndex st)
                                   = (history st, historyIndex st)
                   then 1 else 2)"
    if n: "500 \<le> n" for n
  proof -
    from change_then_time [OF k(3,4) ne n] obtain st2 where
      "run (Change s # replicate n Tick) st1 = Some st2"
      "(history st2, historyIndex st2) = commit s (history st1, historyIndex st1)"
      "content st2 = s"
      "fired (Change s # replicate n Tick) st1 =
               (if n < 1000 \<or> commitCallback (history st1) (historyIndex st1) s = None
                then 1 else 2)"
      by blast
    then show ?thesis using r f k noop
      by (simp add: run_append fired_append del: run.simps fired.simps)
  qed
  show ?thesis using quiet later by blast
qed


theorem debounce_coalesces_witness:
  "run [] mount = Some mount
   \<and> (100::nat) < 500 \<and> (499::nat) < 500
   \<and> distinct_adj ((content mount # map fst [(''a'', 100::nat), (''ab'', 499)]) @ [''abc''])
   \<and> (\<exists>st2. run (typing [(''a'', 100), (''ab'', 499)] @ Change ''abc'' # replicate 500 Tick) mount
               = Some st2
          \<and> (history st2, historyIndex st2) = ([INITIAL_CONTENT, ''abc''], 1)
          \<and> content st2 = ''abc''
          \<and> fired (typing [(''a'', 100), (''ab'', 499)] @ Change ''abc'' # replicate 500 Tick) mount
               = 1)
   \<and> (\<exists>st2. run (typing [(''a'', 100), (''ab'', 499)] @ Change ''abc'' # replicate 2000 Tick) mount
               = Some st2
          \<and> (history st2, historyIndex st2) = ([INITIAL_CONTENT, ''abc''], 1)
          \<and> content st2 = ''abc''
          \<and> fired (typing [(''a'', 100), (''ab'', 499)] @ Change ''abc'' # replicate 2000 Tick) mount
               = 2)"
proof -
  have h1: "run [] mount = Some mount" by simp
  have h2: "\<forall>(x, gap) \<in> set [(''a'', 100::nat), (''ab'', 499)]. gap < 500" by simp
  have h3: "distinct_adj ((content mount # map fst [(''a'', 100::nat), (''ab'', 499)]) @ [''abc''])"
    by (simp add: mount_eq INITIAL_CONTENT_neq)
  have c: "commit ''abc'' (history mount, historyIndex mount) = ([INITIAL_CONTENT, ''abc''], 1)"
    by (simp add: mount_eq commit_def commitCallback_def js_get_def INITIAL_CONTENT_neq)
  have n: "([INITIAL_CONTENT, ''abc''], 1) \<noteq> (history mount, historyIndex mount)"
    by (simp add: mount_eq)
  note later = conjunct2 [OF debounce_coalesces [OF h1 h2 h3], unfolded c]
  have le500: "500 \<le> (500::nat)" and le2000: "500 \<le> (2000::nat)" by simp_all
  have cond500: "(if (500::nat) < 1000
                      \<or> ([INITIAL_CONTENT, ''abc''], 1) = (history mount, historyIndex mount)
                  then 1 else 2) = (1::nat)"
    by simp
  have cond2000: "(if (2000::nat) < 1000
                      \<or> ([INITIAL_CONTENT, ''abc''], 1) = (history mount, historyIndex mount)
                   then 1 else 2) = (2::nat)"
    using n by simp
  have a: "\<exists>st2. run (typing [(''a'', 100), (''ab'', 499)] @ Change ''abc'' # replicate 500 Tick) mount
               = Some st2
          \<and> (history st2, historyIndex st2) = ([INITIAL_CONTENT, ''abc''], 1)
          \<and> content st2 = ''abc''
          \<and> fired (typing [(''a'', 100), (''ab'', 499)] @ Change ''abc'' # replicate 500 Tick) mount
               = 1"
    using later [rule_format, of 500, OF le500] unfolding cond500 .
  have b: "\<exists>st2. run (typing [(''a'', 100), (''ab'', 499)] @ Change ''abc'' # replicate 2000 Tick) mount
               = Some st2
          \<and> (history st2, historyIndex st2) = ([INITIAL_CONTENT, ''abc''], 1)
          \<and> content st2 = ''abc''
          \<and> fired (typing [(''a'', 100), (''ab'', 499)] @ Change ''abc'' # replicate 2000 Tick) mount
               = 2"
    using later [rule_format, of 2000, OF le2000] unfolding cond2000 .
  have h4: "(100::nat) < 500" "(499::nat) < 500" by simp_all
  show ?thesis by (intro conjI h1 h3 h4 a b)
qed

text \<open>
  The claim as stated fails in two ways. A notification that repeats the current content
  does not restart the wait: \<^verbatim>\<open>setContent\<close> with an unchanged value changes no
  dependency, the effect does not run, and the timeout set earlier stays. After the mount,
  \<open>B\<close> is supplied, \<open>B\<close> again 300 time units later, and \<open>C\<close> 300 time units after that.
  The timeout of the first notification fires 500 time units after it, in the middle of the
  burst, and commits \<open>B\<close>; the one of the last notification commits \<open>C\<close>: two callbacks and
  two new entries, where one commit of \<open>C\<close> alone would leave the entries
  \<open>[INITIAL_CONTENT, C]\<close>. And after a single edit \<open>B\<close> the callback runs twice within 1000
  time units: the commit changes the history, so the effect sets another timeout.
\<close>

theorem debounce_repeated_snapshot_counterexample:
  "run (typing [(''B'', 300), (''B'', 300)] @ Change ''C'' # replicate 500 Tick) mount =
     Some \<lparr>content = ''C'', history = [INITIAL_CONTENT, ''B'', ''C''], historyIndex = 2,
           isNavigatingHistory = False, debounceTimer = Some 5, hasCleanup = True,
           timers = [\<lparr>handle = 5, remaining = 500, cap_content = ''C'',
                       cap_history = [INITIAL_CONTENT, ''B'', ''C''], cap_historyIndex = 2\<rparr>],
           lastHandle = 5\<rparr>
   \<and> fired (typing [(''B'', 300), (''B'', 300)] @ Change ''C'' # replicate 500 Tick) mount = 2
   \<and> commit ''C'' (history mount, historyIndex mount) = ([INITIAL_CONTENT, ''C''], 1)
   \<and> fired (Change ''B'' # replicate 1000 Tick) mount = 2"
proof -
  let ?I = INITIAL_CONTENT
  let ?p1 = "\<lparr>handle = 2, remaining = 500, cap_content = ''B'', cap_history = [?I],
              cap_historyIndex = 0\<rparr>"
  let ?s1 = "\<lparr>content = ''B'', history = [?I], historyIndex = 0, isNavigatingHistory = False,
       debounceTimer = Some 2, hasCleanup = True, timers = [?p1], lastHandle = 2\<rparr>"
  let ?p2 = "\<lparr>handle = 2, remaining = 200, cap_content = ''B'', cap_history = [?I],
              cap_historyIndex = 0\<rparr>"
  let ?s2 = "\<lparr>content = ''B'', history = [?I], historyIndex = 0, isNavigatingHistory = False,
       debounceTimer = Some 2, hasCleanup = True, timers = [?p2], lastHandle = 2\<rparr>"
  let ?p3 = "\<lparr>handle = 3, remaining = 500, cap_content = ''B'', cap_history = [?I, ''B''],
              cap_historyIndex = 1\<rparr>"
  let ?s3 = "\<lparr>content = ''B'', history = [?I, ''B''], historyIndex = 1,
       isNavigatingHistory = False, debounceTimer = Some 3, hasCleanup = True,
       timers = [?p3], lastHandle = 3\<rparr>"
  let ?p4 = "\<lparr>handle = 3, remaining = 400, cap_content = ''B'', cap_history = [?I, ''B''],
              cap_historyIndex = 1\<rparr>"
  let ?s4 = "\<lparr>content = ''B'', history = [?I, ''B''], historyIndex = 1,
       isNavigatingHistory = False, debounceTimer = Some 3, hasCleanup = True,
       timers = [?p4], lastHandle = 3\<rparr>"
  let ?p5 = "\<lparr>handle = 4, remaining = 500, cap_content = ''C'', cap_history = [?I, ''B''],
              cap_historyIndex = 1\<rparr>"
  let ?s5 = "\<lparr>content = ''C'', history = [?I, ''B''], historyIndex = 1,
       isNavigatingHistory = False, debounceTimer = Some 4, hasCleanup = True,
       timers = [?p5], lastHandle = 4\<rparr>"
  let ?s6 = "\<lparr>content = ''C'', history = [?I, ''B'', ''C''], historyIndex = 2,
       isNavigatingHistory = False, debounceTimer = Some 5, hasCleanup = True,
       timers = [\<lparr>handle = 5, remaining = 500, cap_content = ''C'',
                   cap_history = [?I, ''B'', ''C''], cap_historyIndex = 2\<rparr>],
       lastHandle = 5\<rparr>"
  have nB: "''B'' \<noteq> ?I" by (simp add: INITIAL_CONTENT_neq)
  have c1: "step (Change ''B'') mount = Some ?s1"
    using step_change_new [of "''B''" mount] nB by (simp add: mount_eq tidy_def)
  have w1: "run (replicate 300 Tick) ?s1 = Some ?s2" "fired (replicate 300 Tick) ?s1 = 0"
    using run_wait [of ?s1 ?p1 300] by simp_all
  have c2: "step (Change ''B'') ?s2 = Some ?s2"
    using step_change_same [of ?s2] by simp
  have cc2: "commitCallback (cap_history ?p2) (cap_historyIndex ?p2) (cap_content ?p2)
              = Some ([?I, ''B''], 1)"
    using nB by (simp add: commitCallback_in_range)
  have f2: "callback ?p2 (?s2\<lparr>timers := []\<rparr>) = ?s3"
    using callback_commit [OF cc2, of "?s2\<lparr>timers := []\<rparr>"] by simp
  have w2: "run (replicate 200 Tick) ?s2 = Some ?s3" "fired (replicate 200 Tick) ?s2 = 1"
    using run_wait_fire [of ?s2 ?p2 199] f2 by simp_all
  have w3: "run (replicate 100 Tick) ?s3 = Some ?s4" "fired (replicate 100 Tick) ?s3 = 0"
    using run_wait [of ?s3 ?p3 100] by simp_all
  have c3: "step (Change ''C'') ?s4 = Some ?s5"
    using step_change_new [of "''C''" ?s4] by (simp add: tidy_def)
  have cc5: "commitCallback (cap_history ?p5) (cap_historyIndex ?p5) (cap_content ?p5)
              = Some ([?I, ''B'', ''C''], 2)"
    by (simp add: commitCallback_in_range)
  have f5: "callback ?p5 (?s5\<lparr>timers := []\<rparr>) = ?s6"
    using callback_commit [OF cc5, of "?s5\<lparr>timers := []\<rparr>"] by simp
  have w5: "run (replicate 500 Tick) ?s5 = Some ?s6" "fired (replicate 500 Tick) ?s5 = 1"
    using run_wait_fire [of ?s5 ?p5 499] f5 by simp_all
  have es: "typing [(''B'', 300), (''B'', 300)] @ Change ''C'' # replicate 500 Tick =
              [Change ''B''] @ replicate 300 Tick @ [Change ''B''] @ replicate 200 Tick
              @ replicate 100 Tick @ [Change ''C''] @ replicate 500 Tick"
    by (simp flip: replicate_add)
  have c: "commit ''C'' (history mount, historyIndex mount) = ([INITIAL_CONTENT, ''C''], 1)"
    by (simp add: mount_eq commit_def commitCallback_def js_get_def INITIAL_CONTENT_neq)
  have r1: "run [Change ''B''] mount = Some ?s1" "fired [Change ''B''] mount = 0"
    using c1 by (simp_all del: step.simps)
  have r2: "run [Change ''B''] ?s2 = Some ?s2" "fired [Change ''B''] ?s2 = 0"
    using c2 by (simp_all del: step.simps)
  have r3: "run [Change ''C''] ?s4 = Some ?s5" "fired [Change ''C''] ?s4 = 0"
    using c3 by (simp_all del: step.simps)
  have a: "run (typing [(''B'', 300), (''B'', 300)] @ Change ''C'' # replicate 500 Tick) mount
          = Some ?s6"
    unfolding es by (simp only: run_append r1 w1 r2 w2 w3 r3 w5 option.case)
  have "fired (typing [(''B'', 300), (''B'', 300)] @ Change ''C'' # replicate 500 Tick) mount
          = 0 + (0 + (0 + (1 + (0 + (0 + 1)))))"
    unfolding es by (simp only: run_append fired_append r1 w1 r2 w2 w3 r3 w5 option.case)
  then have b: "fired (typing [(''B'', 300), (''B'', 300)] @ Change ''C'' # replicate 500 Tick) mount
          = 2"
    by simp
  have "\<not> isNavigatingHistory mount" "tidy mount" "''B'' \<noteq> content mount"
    by (simp_all add: mount_eq tidy_def INITIAL_CONTENT_neq)
  from change_then_time [OF this, of 1000]
  have d: "fired (Change ''B'' # replicate 1000 Tick) mount = 2"
    using nB by (auto simp: mount_eq commitCallback_in_range)
  show ?thesis by (intro conjI a b c d)
qed


section \<open>Undo and redo\<close>

text \<open>
  C3. In a state reached from the mount where an undo is possible, \<open>handleUndo\<close> sets the
  navigation flag and stores the restored snapshot; the effect run that this change of
  content and index triggers finds the flag set, clears it and schedules nothing (the
  cleanup has cleared what was pending), so the history is the one before the undo, and no
  later timeout adds to it. The flag being clear afterwards, the next edit is not
  swallowed: it schedules its commit.
\<close>

theorem undo_consumes_guard:
  assumes "run es mount = Some st" and "canUndo st"
  shows "\<exists>st1. handleUndo st = Some st1
       \<and> isNavigatingHistory st1
       \<and> js_get (history st) (int (historyIndex st) - 1) = Some (content st1)
       \<and> step Undo st = Some (effect (cleanup st1))
       \<and> \<not> isNavigatingHistory (effect (cleanup st1))
       \<and> timers (effect (cleanup st1)) = []
       \<and> content (effect (cleanup st1)) = content st1
       \<and> history (effect (cleanup st1)) = history st
       \<and> length (history (effect (cleanup st1))) = length (history st)
       \<and> (\<forall>n. \<exists>st'. run (replicate n Tick) (effect (cleanup st1)) = Some st'
               \<and> fired (replicate n Tick) (effect (cleanup st1)) = 0
               \<and> history st' = history st)
       \<and> (\<forall>s. s \<noteq> content st1 \<longrightarrow>
             (\<exists>st3 p. step (Change s) (effect (cleanup st1)) = Some st3
                \<and> timers st3 = [p] \<and> debounceTimer st3 = Some (handle p)
                \<and> remaining p = 500 \<and> cap_content p = s))"
proof -
  have i: "app_inv st" using assms(1) by (rule reached_inv)
  then have w: "cursor_ok st" and cl: "tidy st" by (simp_all add: app_inv_def)
  have pos: "0 < historyIndex st" using assms(2) by (simp add: canUndo_def)
  let ?st1 = "st\<lparr>isNavigatingHistory := True, historyIndex := historyIndex st - 1,
                 content := history st ! (historyIndex st - 1)\<rparr>"
  have h: "handleUndo st = Some ?st1" using w pos by (rule undo_some)
  have "historyIndex st - 1 < length (history st)"
    using w by (simp add: cursor_ok_def)
  from js_get_nat [OF this]
  have g: "js_get (history st) (int (historyIndex st) - 1) = Some (content ?st1)"
    using pos by (simp add: of_nat_diff)
  let ?st2 = "(cleanup ?st1)\<lparr>isNavigatingHistory := False, hasCleanup := False\<rparr>"
  have ec: "effect (cleanup ?st1) = ?st2"
    by (simp add: effect_def)
  have r: "rerender st ?st1 = ?st2"
    using pos by (intro navigated_render) simp_all
  have s: "step Undo st = Some ?st2"
    using h r by simp
  have t: "timers ?st2 = []"
    using tidy_cleanup [OF cl] by simp
  have idle: "\<exists>st'. run (replicate n Tick) ?st2 = Some st'
               \<and> fired (replicate n Tick) ?st2 = 0 \<and> history st' = history st" for n
    using run_idle [OF t, of n] by simp
  have t2: "tidy ?st2" using t by (simp add: tidy_def)
  have next_edit: "\<exists>st3 p. step (Change s) ?st2 = Some st3
                \<and> timers st3 = [p] \<and> debounceTimer st3 = Some (handle p)
                \<and> remaining p = 500 \<and> cap_content p = s"
    if "s \<noteq> content ?st1" for s
    using step_change_new [of s ?st2, OF _ _ t2] that by simp
  have "isNavigatingHistory ?st1
       \<and> js_get (history st) (int (historyIndex st) - 1) = Some (content ?st1)
       \<and> step Undo st = Some (effect (cleanup ?st1))
       \<and> \<not> isNavigatingHistory (effect (cleanup ?st1))
       \<and> timers (effect (cleanup ?st1)) = []
       \<and> content (effect (cleanup ?st1)) = content ?st1
       \<and> history (effect (cleanup ?st1)) = history st
       \<and> length (history (effect (cleanup ?st1))) = length (history st)
       \<and> (\<forall>n. \<exists>st'. run (replicate n Tick) (effect (cleanup ?st1)) = Some st'
               \<and> fired (replicate n Tick) (effect (cleanup ?st1)) = 0
               \<and> history st' = history st)
       \<and> (\<forall>s. s \<noteq> content ?st1 \<longrightarrow>
             (\<exists>st3 p. step (Change s) (effect (cleanup ?st1)) = Some st3
                \<and> timers st3 = [p] \<and> debounceTimer st3 = Some (handle p)
                \<and> remaining p = 500 \<and> cap_content p = s))"
    unfolding ec using g s t idle next_edit by (simp del: step.simps)
  then show ?thesis using h by blast
qed

theorem undo_consumes_guard_witness:
  "run (Change ''x'' # replicate 500 Tick) mount =
     Some \<lparr>content = ''x'', history = [INITIAL_CONTENT, ''x''], historyIndex = 1,
           isNavigatingHistory = False, debounceTimer = Some 3, hasCleanup = True,
           timers = [\<lparr>handle = 3, remaining = 500, cap_content = ''x'',
                       cap_history = [INITIAL_CONTENT, ''x''], cap_historyIndex = 1\<rparr>],
           lastHandle = 3\<rparr>
   \<and> canUndo \<lparr>content = ''x'', history = [INITIAL_CONTENT, ''x''], historyIndex = 1,
           isNavigatingHistory = False, debounceTimer = Some 3, hasCleanup = True,
           timers = [\<lparr>handle = 3, remaining = 500, cap_content = ''x'',
                       cap_history = [INITIAL_CONTENT, ''x''], cap_historyIndex = 1\<rparr>],
           lastHandle = 3\<rparr>
   \<and> step Undo \<lparr>content = ''x'', history = [INITIAL_CONTENT, ''x''], historyIndex = 1,
           isNavigatingHistory = False, debounceTimer = Some 3, hasCleanup = True,
           timers = [\<lparr>handle = 3, remaining = 500, cap_content = ''x'',
                       cap_history = [INITIAL_CONTENT, ''x''], cap_historyIndex = 1\<rparr>],
           lastHandle = 3\<rparr>
       = Some \<lparr>content = INITIAL_CONTENT, history = [INITIAL_CONTENT, ''x''], historyIndex = 0,
           isNavigatingHistory = False, debounceTimer = Some 3, hasCleanup = False,
           timers = [], lastHandle = 3\<rparr>"
proof -
  let ?st = "\<lparr>content = ''x'', history = [INITIAL_CONTENT, ''x''], historyIndex = 1,
           isNavigatingHistory = False, debounceTimer = Some 3, hasCleanup = True,
           timers = [\<lparr>handle = 3, remaining = 500, cap_content = ''x'',
                       cap_history = [INITIAL_CONTENT, ''x''], cap_historyIndex = 1\<rparr>],
           lastHandle = 3\<rparr>"
  have h1: "run (Change ''x'' # replicate 500 Tick) mount = Some ?st"
    by (rule first_commit) simp
  have h2: "canUndo ?st" by (simp add: canUndo_def)
  from undo_consumes_guard [OF h1 h2] obtain st1 where
    a: "handleUndo ?st = Some st1" and b: "step Undo ?st = Some (effect (cleanup st1))"
    by blast
  have "handleUndo ?st = Some (?st\<lparr>isNavigatingHistory := True, historyIndex := 0,
           content := INITIAL_CONTENT\<rparr>)"
    by (simp add: handleUndo_def js_get_def)
  with a have "st1 = ?st\<lparr>isNavigatingHistory := True, historyIndex := 0,
           content := INITIAL_CONTENT\<rparr>"
    by simp
  with b have "step Undo ?st = Some \<lparr>content = INITIAL_CONTENT,
      history = [INITIAL_CONTENT, ''x''], historyIndex = 0,
      isNavigatingHistory = False, debounceTimer = Some 3, hasCleanup = False,
      timers = [], lastHandle = 3\<rparr>"
    by (simp add: effect_def cleanup_def clearPending_def clearTimeout_def del: step.simps)
  then show ?thesis using h1 h2 by (simp only: simp_thms)
qed

text \<open>
  C4. A commit made while the cursor is before the last index drops the entries after the
  cursor and then appends. With the history \<open>[A, B, C]\<close> and the cursor at 2, an undo
  moves the cursor to 1 and keeps the entries; a commit of \<open>D\<close>, distinct from \<open>B\<close>, on
  that stack gives \<open>[A, B, D]\<close> with the cursor at 2, and this is what the history is 500
  time units after the edit \<open>D\<close> that follows the undo, provided that no timeout was
  pending before the undo but the one whose handle the ref holds.
\<close>

theorem commit_after_undo_truncates:
  assumes "history st = [A, B, C]" and "historyIndex st = 2" and "D \<noteq> B"
  shows "(\<exists>st1. step Undo st = Some st1
           \<and> history st1 = [A, B, C] \<and> historyIndex st1 = 1
           \<and> commit D (history st1, historyIndex st1) = ([A, B, D], 2)
           \<and> (owned st \<longrightarrow>
                (\<exists>st2. run (Change D # replicate 500 Tick) st1 = Some st2
                  \<and> history st2 = [A, B, D] \<and> historyIndex st2 = 2)))
       \<and> (cursor < length entries \<and> s \<noteq> entries ! cursor \<longrightarrow>
            commit s (entries, cursor) = (take (cursor + 1) entries @ [s], cursor + 1))"
proof -
  let ?st1 = "(cleanup st)\<lparr>isNavigatingHistory := False, historyIndex := historyIndex st - 1,
                 content := history st ! (historyIndex st - 1), hasCleanup := False\<rparr>"
  let ?st0 = "?st1\<lparr>timers := []\<rparr>"
  have w: "cursor_ok st" using assms(1,2) by (simp add: cursor_ok_def)
  have u: "step Undo st = Some ?st1"
    using w assms(2) by (intro step_undo) simp_all
  have k: "history ?st1 = [A, B, C]" "historyIndex ?st1 = 1" "content ?st1 = B"
    "\<not> isNavigatingHistory ?st1"
    using assms(1,2) by simp_all
  have c: "commit D (history ?st1, historyIndex ?st1) = ([A, B, D], 2)"
    unfolding k using assms(3) by (simp add: commit_def commitCallback_in_range)
  have "\<exists>st2. run (Change D # replicate 500 Tick) ?st1 = Some st2
                  \<and> history st2 = [A, B, D] \<and> historyIndex st2 = 2"
    if o: "owned st"
  proof -
    have "owned (cleanup st)" using o by (rule owned_cleanup)
    then have o1: "owned ?st1" by (simp add: owned_def)
    have ne: "D \<noteq> content ?st1" using assms(3) k by simp
    have s: "step (Change D) ?st1 = step (Change D) ?st0"
      using ne k(4) o1 by (rule step_change_owned)
    have t0: "tidy ?st0" by (simp add: tidy_def)
    have n0: "\<not> isNavigatingHistory ?st0" by simp
    have ne0: "D \<noteq> content ?st0" using ne by simp
    from change_then_time [OF n0 t0 ne0, of 500]
    obtain st2 where "run (Change D # replicate 500 Tick) ?st0 = Some st2"
      and "(history st2, historyIndex st2) = commit D (history ?st0, historyIndex ?st0)"
      by auto
    moreover have "run (Change D # replicate 500 Tick) ?st1
                     = run (Change D # replicate 500 Tick) ?st0"
      using s by (simp only: run.simps)
    moreover have "commit D (history ?st0, historyIndex ?st0) = ([A, B, D], 2)"
      using c by simp
    ultimately show ?thesis by auto
  qed
  then have "\<exists>st1. step Undo st = Some st1
           \<and> history st1 = [A, B, C] \<and> historyIndex st1 = 1
           \<and> commit D (history st1, historyIndex st1) = ([A, B, D], 2)
           \<and> (owned st \<longrightarrow>
                (\<exists>st2. run (Change D # replicate 500 Tick) st1 = Some st2
                  \<and> history st2 = [A, B, D] \<and> historyIndex st2 = 2))"
    using u k c by blast
  moreover have "commit s (entries, cursor) = (take (cursor + 1) entries @ [s], cursor + 1)"
    if "cursor < length entries" "s \<noteq> entries ! cursor"
    using that by (simp add: commit_def commitCallback_in_range)
  ultimately show ?thesis by blast
qed

theorem commit_after_undo_truncates_witness:
  "history \<lparr>content = ''cd'', history = [''a'', ''b'', ''c''], historyIndex = 2,
            isNavigatingHistory = False, debounceTimer = Some 9, hasCleanup = False,
            timers = [\<lparr>handle = 9, remaining = 300, cap_content = ''cd'',
                        cap_history = [''a'', ''b'', ''c''], cap_historyIndex = 2\<rparr>],
            lastHandle = 9\<rparr> = [''a'', ''b'', ''c'']
   \<and> historyIndex \<lparr>content = ''cd'', history = [''a'', ''b'', ''c''], historyIndex = 2,
            isNavigatingHistory = False, debounceTimer = Some 9, hasCleanup = False,
            timers = [\<lparr>handle = 9, remaining = 300, cap_content = ''cd'',
                        cap_history = [''a'', ''b'', ''c''], cap_historyIndex = 2\<rparr>],
            lastHandle = 9\<rparr> = 2
   \<and> ''d'' \<noteq> ''b''
   \<and> owned \<lparr>content = ''cd'', history = [''a'', ''b'', ''c''], historyIndex = 2,
            isNavigatingHistory = False, debounceTimer = Some 9, hasCleanup = False,
            timers = [\<lparr>handle = 9, remaining = 300, cap_content = ''cd'',
                        cap_history = [''a'', ''b'', ''c''], cap_historyIndex = 2\<rparr>],
            lastHandle = 9\<rparr>
   \<and> (\<exists>st1. step Undo \<lparr>content = ''cd'', history = [''a'', ''b'', ''c''], historyIndex = 2,
            isNavigatingHistory = False, debounceTimer = Some 9, hasCleanup = False,
            timers = [\<lparr>handle = 9, remaining = 300, cap_content = ''cd'',
                        cap_history = [''a'', ''b'', ''c''], cap_historyIndex = 2\<rparr>],
            lastHandle = 9\<rparr> = Some st1
           \<and> history st1 = [''a'', ''b'', ''c''] \<and> historyIndex st1 = 1
           \<and> commit ''d'' (history st1, historyIndex st1) = ([''a'', ''b'', ''d''], 2)
           \<and> (\<exists>st2. run (Change ''d'' # replicate 500 Tick) st1 = Some st2
                  \<and> history st2 = [''a'', ''b'', ''d''] \<and> historyIndex st2 = 2))
   \<and> (0::nat) < length [''a'', ''b'', ''c''] \<and> ''d'' \<noteq> [''a'', ''b'', ''c''] ! 0
   \<and> commit ''d'' ([''a'', ''b'', ''c''], 0) = ([''a'', ''d''], 1)"
proof -
  let ?st = "\<lparr>content = ''cd'', history = [''a'', ''b'', ''c''], historyIndex = 2,
            isNavigatingHistory = False, debounceTimer = Some 9, hasCleanup = False,
            timers = [\<lparr>handle = 9, remaining = 300, cap_content = ''cd'',
                        cap_history = [''a'', ''b'', ''c''], cap_historyIndex = 2\<rparr>],
            lastHandle = 9\<rparr>"
  have h1: "history ?st = [''a'', ''b'', ''c'']" by simp
  have h2: "historyIndex ?st = 2" by simp
  have h3: "''d'' \<noteq> ''b''" by simp
  have h5: "owned ?st" by (simp add: owned_def)
  note e = commit_after_undo_truncates [OF h1 h2 h3, of 0 "[''a'', ''b'', ''c'']" "''d''"]
  have e1: "\<exists>st1. step Undo ?st = Some st1
           \<and> history st1 = [''a'', ''b'', ''c''] \<and> historyIndex st1 = 1
           \<and> commit ''d'' (history st1, historyIndex st1) = ([''a'', ''b'', ''d''], 2)
           \<and> (\<exists>st2. run (Change ''d'' # replicate 500 Tick) st1 = Some st2
                  \<and> history st2 = [''a'', ''b'', ''d''] \<and> historyIndex st2 = 2)"
    using conjunct1 [OF e] h5 by blast
  have e2: "commit ''d'' ([''a'', ''b'', ''c''], 0) = ([''a'', ''d''], 1)"
    using conjunct2 [OF e] by simp
  have h4: "(0::nat) < length [''a'', ''b'', ''c'']" "''d'' \<noteq> [''a'', ''b'', ''c''] ! 0"
    by simp_all
  show ?thesis by (intro conjI h1 h2 h3 h5 e1 h4 e2)
qed

section \<open>Invariants of the history\<close>

text \<open>
  C5. Whatever sequence of edits, time steps (at which the debounced commit may fire),
  undos and redos follows the mount, the history never holds the same snapshot at two
  consecutive indices.
\<close>

theorem history_adjacent_distinct:
  "\<exists>st. run es mount = Some st \<and> distinct_adj (history st)"
  using reachable_inv [of es] by (auto simp: app_inv_def)

theorem history_adjacent_distinct_witness:
  "\<exists>st. run (Change ''x'' # replicate 500 Tick @ [Undo, Change ''x'', Redo]) mount = Some st
        \<and> distinct_adj (history st)"
  by (rule history_adjacent_distinct)

text \<open>
  C6. In every state reached from the mount the history is not empty and the cursor is one
  of its indices, so the read \<^verbatim>\<open>history[historyIndex]\<close> is defined.
\<close>

theorem cursor_in_range:
  "\<exists>st. run es mount = Some st
        \<and> history st \<noteq> []
        \<and> 0 \<le> int (historyIndex st)
        \<and> int (historyIndex st) \<le> int (length (history st)) - 1
        \<and> js_get (history st) (int (historyIndex st)) = Some (history st ! historyIndex st)"
proof -
  from reachable_inv [of es] obtain st where r: "run es mount = Some st" and i: "app_inv st"
    by blast
  have w: "historyIndex st < length (history st)"
    using i by (simp add: app_inv_def cursor_ok_def)
  then have "history st \<noteq> []" by auto
  moreover have "int (historyIndex st) \<le> int (length (history st)) - 1"
    using w by linarith
  moreover have "js_get (history st) (int (historyIndex st)) = Some (history st ! historyIndex st)"
    using w by (rule js_get_nat)
  ultimately show ?thesis using r by auto
qed

theorem cursor_in_range_witness:
  "\<exists>st. run (Change ''x'' # replicate 500 Tick @ [Undo, Undo, Redo, Redo]) mount = Some st
        \<and> history st \<noteq> []
        \<and> 0 \<le> int (historyIndex st)
        \<and> int (historyIndex st) \<le> int (length (history st)) - 1
        \<and> js_get (history st) (int (historyIndex st)) = Some (history st ! historyIndex st)"
  by (rule cursor_in_range)


section \<open>Boundaries and frame\<close>

text \<open>
  C7. An undo with the cursor at index 0 and a redo with the cursor at the last index
  return the state they were given, nothing changed: the handler sets no state and no ref,
  and no render follows. \<open>canUndo\<close> is \<open>historyIndex > 0\<close> and \<open>canRedo\<close> is
  \<open>historyIndex < length - 1\<close>. No event fails: each has a result in every state whose
  cursor is an index of the history, and every sequence of events from the mount runs to
  its end.
\<close>

theorem boundary_noops:
  "(historyIndex st = 0 \<longrightarrow> handleUndo st = Some st \<and> step Undo st = Some st)
   \<and> (int (historyIndex st) = int (length (history st)) - 1
        \<longrightarrow> handleRedo st = Some st \<and> step Redo st = Some st)
   \<and> canUndo st = (historyIndex st > 0)
   \<and> canRedo st = (int (historyIndex st) < int (length (history st)) - 1)
   \<and> (cursor_ok st \<longrightarrow> (\<exists>st'. step e st = Some st'))
   \<and> (\<exists>st'. run es mount = Some st')"
proof -
  have "handleUndo st = Some st \<and> step Undo st = Some st" if "historyIndex st = 0"
    using that step_undo_0 [of st] by (simp add: handleUndo_def)
  moreover have "handleRedo st = Some st \<and> step Redo st = Some st"
    if "int (historyIndex st) = int (length (history st)) - 1"
    using that step_redo_last [of st] by (simp add: handleRedo_def)
  moreover have "\<exists>st'. run es mount = Some st'"
    using reachable_inv [of es] by blast
  ultimately show ?thesis
    using step_total [of st e] unfolding canUndo_def canRedo_def by blast
qed

theorem boundary_noops_witness:
  "historyIndex \<lparr>content = ''a'', history = [''a''], historyIndex = 0,
      isNavigatingHistory = False, debounceTimer = None, hasCleanup = False,
      timers = [], lastHandle = 0\<rparr> = 0
   \<and> int (historyIndex \<lparr>content = ''a'', history = [''a''], historyIndex = 0,
      isNavigatingHistory = False, debounceTimer = None, hasCleanup = False,
      timers = [], lastHandle = 0\<rparr>)
       = int (length (history \<lparr>content = ''a'', history = [''a''], historyIndex = 0,
      isNavigatingHistory = False, debounceTimer = None, hasCleanup = False,
      timers = [], lastHandle = 0\<rparr>)) - 1
   \<and> cursor_ok \<lparr>content = ''a'', history = [''a''], historyIndex = 0,
      isNavigatingHistory = False, debounceTimer = None, hasCleanup = False,
      timers = [], lastHandle = 0\<rparr>
   \<and> step Undo \<lparr>content = ''a'', history = [''a''], historyIndex = 0,
      isNavigatingHistory = False, debounceTimer = None, hasCleanup = False,
      timers = [], lastHandle = 0\<rparr>
       = Some \<lparr>content = ''a'', history = [''a''], historyIndex = 0,
      isNavigatingHistory = False, debounceTimer = None, hasCleanup = False,
      timers = [], lastHandle = 0\<rparr>
   \<and> step Redo \<lparr>content = ''a'', history = [''a''], historyIndex = 0,
      isNavigatingHistory = False, debounceTimer = None, hasCleanup = False,
      timers = [], lastHandle = 0\<rparr>
       = Some \<lparr>content = ''a'', history = [''a''], historyIndex = 0,
      isNavigatingHistory = False, debounceTimer = None, hasCleanup = False,
      timers = [], lastHandle = 0\<rparr>
   \<and> (\<exists>st'. run [Undo, Redo, Change ''x'', Tick] mount = Some st')"
  using boundary_noops [of "\<lparr>content = ''a'', history = [''a''], historyIndex = 0,
      isNavigatingHistory = False, debounceTimer = None, hasCleanup = False,
      timers = [], lastHandle = 0\<rparr>" Undo
      "[Undo, Redo, Change ''x'', Tick]"]
  by (simp add: cursor_ok_def del: step.simps)


text \<open>
  C8. An undo or a redo leaves the history as it is. The state it returns is either the
  state it was given or one that differs from it in the cursor and in the content, which
  is the entry at the new cursor, and in the bookkeeping of the effect: the navigation
  flag is clear again, the cleanup function, if one was registered, has run (it clears the
  timeout whose handle the ref holds), and none is registered now.
\<close>

theorem undo_redo_keep_entries:
  assumes "e = Undo \<or> e = Redo" and "step e st = Some st'"
  shows "history st' = history st
       \<and> length (history st') = length (history st)
       \<and> (st' = st
          \<or> (st' = (cleanup st)\<lparr>historyIndex := historyIndex st', content := content st',
                       isNavigatingHistory := False, hasCleanup := False\<rparr>
             \<and> js_get (history st) (int (historyIndex st')) = Some (content st')))"
proof -
  consider "e = Undo" | "e = Redo" using assms(1) by blast
  then show ?thesis
  proof cases
    case 1
    then obtain st1 where h: "handleUndo st = Some st1" and r: "st' = rerender st st1"
      using assms(2) by auto
    from handleUndo_cases [OF h] show ?thesis
    proof
      assume "historyIndex st = 0 \<and> st1 = st"
      then show ?thesis using r by (simp add: rerender_def)
    next
      assume "0 < historyIndex st
          \<and> (\<exists>s. js_get (history st) (int (historyIndex st) - 1) = Some s
                \<and> st1 = st\<lparr>isNavigatingHistory := True, historyIndex := historyIndex st - 1,
                           content := s\<rparr>)"
      then obtain s where pos: "0 < historyIndex st"
        and g: "js_get (history st) (int (historyIndex st) - 1) = Some s"
        and e: "st1 = st\<lparr>isNavigatingHistory := True, historyIndex := historyIndex st - 1,
                           content := s\<rparr>"
        by blast
      have "st' = (cleanup st)\<lparr>historyIndex := historyIndex st - 1, content := s,
                     isNavigatingHistory := False, hasCleanup := False\<rparr>"
        unfolding r e using pos navigated_render [of st1 st] e by simp
      moreover have "int (historyIndex st - 1) = int (historyIndex st) - 1"
        using pos by simp
      ultimately show ?thesis using g by simp
    qed
  next
    case 2
    then obtain st1 where h: "handleRedo st = Some st1" and r: "st' = rerender st st1"
      using assms(2) by auto
    from handleRedo_cases [OF h] show ?thesis
    proof
      assume "\<not> int (historyIndex st) < int (length (history st)) - 1 \<and> st1 = st"
      then show ?thesis using r by (simp add: rerender_def)
    next
      assume "int (historyIndex st) < int (length (history st)) - 1
          \<and> (\<exists>s. js_get (history st) (int (historyIndex st) + 1) = Some s
                \<and> st1 = st\<lparr>isNavigatingHistory := True, historyIndex := historyIndex st + 1,
                           content := s\<rparr>)"
      then obtain s where g: "js_get (history st) (int (historyIndex st) + 1) = Some s"
        and e: "st1 = st\<lparr>isNavigatingHistory := True, historyIndex := historyIndex st + 1,
                           content := s\<rparr>"
        by blast
      have "st' = (cleanup st)\<lparr>historyIndex := historyIndex st + 1, content := s,
                     isNavigatingHistory := False, hasCleanup := False\<rparr>"
        unfolding r e using navigated_render [of st1 st] e by simp
      moreover have "int (historyIndex st + 1) = int (historyIndex st) + 1"
        by simp
      ultimately show ?thesis using g by (simp add: ac_simps)
    qed
  qed
qed

theorem undo_redo_keep_entries_witness:
  "(Undo = Undo \<or> Undo = Redo)
   \<and> step Undo \<lparr>content = ''bc'', history = [''a'', ''b''], historyIndex = 1,
        isNavigatingHistory = False, debounceTimer = Some 7, hasCleanup = True,
        timers = [\<lparr>handle = 7, remaining = 200, cap_content = ''bc'',
                    cap_history = [''a'', ''b''], cap_historyIndex = 1\<rparr>],
        lastHandle = 7\<rparr>
       = Some \<lparr>content = ''a'', history = [''a'', ''b''], historyIndex = 0,
           isNavigatingHistory = False, debounceTimer = Some 7, hasCleanup = False,
           timers = [], lastHandle = 7\<rparr>
   \<and> history \<lparr>content = ''a'', history = [''a'', ''b''], historyIndex = 0,
           isNavigatingHistory = False, debounceTimer = Some 7, hasCleanup = False,
           timers = [], lastHandle = 7\<rparr>
       = history \<lparr>content = ''bc'', history = [''a'', ''b''], historyIndex = 1,
        isNavigatingHistory = False, debounceTimer = Some 7, hasCleanup = True,
        timers = [\<lparr>handle = 7, remaining = 200, cap_content = ''bc'',
                    cap_history = [''a'', ''b''], cap_historyIndex = 1\<rparr>],
        lastHandle = 7\<rparr>"
proof -
  let ?st = "\<lparr>content = ''bc'', history = [''a'', ''b''], historyIndex = 1,
        isNavigatingHistory = False, debounceTimer = Some 7, hasCleanup = True,
        timers = [\<lparr>handle = 7, remaining = 200, cap_content = ''bc'',
                    cap_history = [''a'', ''b''], cap_historyIndex = 1\<rparr>],
        lastHandle = 7\<rparr>"
  let ?st' = "\<lparr>content = ''a'', history = [''a'', ''b''], historyIndex = 0,
           isNavigatingHistory = False, debounceTimer = Some 7, hasCleanup = False,
           timers = [], lastHandle = 7\<rparr>"
  have h1: "Undo = Undo \<or> Undo = Redo" by simp
  have h2: "step Undo ?st = Some ?st'"
    using step_undo [of ?st]
    by (simp add: cursor_ok_def cleanup_def clearPending_def clearTimeout_def del: step.simps)
  from undo_redo_keep_entries [OF h1 h2] have "history ?st' = history ?st"
    by (rule conjunct1)
  then show ?thesis using h1 h2 by (simp del: step.simps)
qed

section \<open>The first entry and the round trip\<close>




text \<open>
  C10 (as amended). In a state whose cursor is an index of the history and where an undo
  is possible, an undo followed by a redo gives back the same history and the same cursor,
  and the content is the entry at that cursor; where a redo is possible, a redo followed
  by an undo does the same. The content is therefore the one before the round trip exactly
  when that content was the entry at the cursor.
\<close>

theorem undo_redo_roundtrip:
  "(cursor_ok st \<and> canUndo st \<longrightarrow>
      (\<exists>st2. run [Undo, Redo] st = Some st2
         \<and> history st2 = history st \<and> historyIndex st2 = historyIndex st
         \<and> js_get (history st) (int (historyIndex st)) = Some (content st2)
         \<and> (content st2 = content st
              \<longleftrightarrow> js_get (history st) (int (historyIndex st)) = Some (content st))))
   \<and> (canRedo st \<longrightarrow>
      (\<exists>st2. run [Redo, Undo] st = Some st2
         \<and> history st2 = history st \<and> historyIndex st2 = historyIndex st
         \<and> js_get (history st) (int (historyIndex st)) = Some (content st2)
         \<and> (content st2 = content st
              \<longleftrightarrow> js_get (history st) (int (historyIndex st)) = Some (content st))))"
proof (intro conjI impI)
  assume a: "cursor_ok st \<and> canUndo st"
  then have w: "cursor_ok st" and pos: "0 < historyIndex st"
    by (simp_all add: canUndo_def)
  let ?st1 = "(cleanup st)\<lparr>isNavigatingHistory := False, historyIndex := historyIndex st - 1,
                 content := history st ! (historyIndex st - 1), hasCleanup := False\<rparr>"
  let ?st2 = "(cleanup st)\<lparr>isNavigatingHistory := False, historyIndex := historyIndex st,
                 content := history st ! historyIndex st, hasCleanup := False\<rparr>"
  have u: "step Undo st = Some ?st1" using w pos by (rule step_undo)
  have "int (historyIndex ?st1) < int (length (history ?st1)) - 1"
    using w pos by (simp add: cursor_ok_def)
  moreover have "cleanup ?st1 = ?st1" by (simp add: cleanup_def)
  ultimately have r: "step Redo ?st1 = Some ?st2"
    using step_redo [of ?st1] pos by (simp del: step.simps)
  have "run [Undo, Redo] st = Some ?st2"
    using u r by (simp del: step.simps)
  moreover have "js_get (history st) (int (historyIndex st)) = Some (history st ! historyIndex st)"
    using w by (intro js_get_nat) (simp add: cursor_ok_def)
  ultimately show "\<exists>st2. run [Undo, Redo] st = Some st2
         \<and> history st2 = history st \<and> historyIndex st2 = historyIndex st
         \<and> js_get (history st) (int (historyIndex st)) = Some (content st2)
         \<and> (content st2 = content st
              \<longleftrightarrow> js_get (history st) (int (historyIndex st)) = Some (content st))"
    by auto
next
  assume "canRedo st"
  then have c: "int (historyIndex st) < int (length (history st)) - 1"
    by (simp add: canRedo_def)
  then have lt: "historyIndex st + 1 < length (history st)" by linarith
  let ?st1 = "(cleanup st)\<lparr>isNavigatingHistory := False, historyIndex := historyIndex st + 1,
                 content := history st ! (historyIndex st + 1), hasCleanup := False\<rparr>"
  let ?st2 = "(cleanup st)\<lparr>isNavigatingHistory := False, historyIndex := historyIndex st,
                 content := history st ! historyIndex st, hasCleanup := False\<rparr>"
  have r: "step Redo st = Some ?st1" using c by (rule step_redo)
  have "cursor_ok ?st1" "0 < historyIndex ?st1"
    using lt by (simp_all add: cursor_ok_def)
  moreover have "cleanup ?st1 = ?st1" by (simp add: cleanup_def)
  ultimately have u: "step Undo ?st1 = Some ?st2"
    using step_undo [of ?st1] by (simp del: step.simps)
  have "run [Redo, Undo] st = Some ?st2"
    using u r by (simp del: step.simps)
  moreover have "js_get (history st) (int (historyIndex st)) = Some (history st ! historyIndex st)"
    using lt by (intro js_get_nat) simp
  ultimately show "\<exists>st2. run [Redo, Undo] st = Some st2
         \<and> history st2 = history st \<and> historyIndex st2 = historyIndex st
         \<and> js_get (history st) (int (historyIndex st)) = Some (content st2)
         \<and> (content st2 = content st
              \<longleftrightarrow> js_get (history st) (int (historyIndex st)) = Some (content st))"
    by auto
qed

theorem undo_redo_roundtrip_witness:
  "cursor_ok \<lparr>content = ''b'', history = [''a'', ''b'', ''c''], historyIndex = 1,
              isNavigatingHistory = False, debounceTimer = None, hasCleanup = False,
              timers = [], lastHandle = 0\<rparr>
   \<and> canUndo \<lparr>content = ''b'', history = [''a'', ''b'', ''c''], historyIndex = 1,
              isNavigatingHistory = False, debounceTimer = None, hasCleanup = False,
              timers = [], lastHandle = 0\<rparr>
   \<and> canRedo \<lparr>content = ''b'', history = [''a'', ''b'', ''c''], historyIndex = 1,
              isNavigatingHistory = False, debounceTimer = None, hasCleanup = False,
              timers = [], lastHandle = 0\<rparr>
   \<and> (\<exists>st2. run [Undo, Redo] \<lparr>content = ''b'', history = [''a'', ''b'', ''c''],
                 historyIndex = 1, isNavigatingHistory = False, debounceTimer = None, hasCleanup = False,
              timers = [], lastHandle = 0\<rparr>
               = Some st2
          \<and> history st2 = [''a'', ''b'', ''c''] \<and> historyIndex st2 = 1 \<and> content st2 = ''b'')
   \<and> (\<exists>st2. run [Redo, Undo] \<lparr>content = ''b'', history = [''a'', ''b'', ''c''],
                 historyIndex = 1, isNavigatingHistory = False, debounceTimer = None, hasCleanup = False,
              timers = [], lastHandle = 0\<rparr>
               = Some st2
          \<and> history st2 = [''a'', ''b'', ''c''] \<and> historyIndex st2 = 1 \<and> content st2 = ''b'')"
proof -
  let ?st = "\<lparr>content = ''b'', history = [''a'', ''b'', ''c''], historyIndex = 1,
              isNavigatingHistory = False, debounceTimer = None, hasCleanup = False,
              timers = [], lastHandle = 0\<rparr>"
  have h: "cursor_ok ?st" "canUndo ?st" "canRedo ?st"
    by (simp_all add: cursor_ok_def canUndo_def canRedo_def)
  have g: "js_get (history ?st) (int (historyIndex ?st)) = Some ''b''"
    by (simp add: js_get_def)
  from undo_redo_roundtrip [of ?st] h g
  have "\<exists>st2. run [Undo, Redo] ?st = Some st2
          \<and> history st2 = [''a'', ''b'', ''c''] \<and> historyIndex st2 = 1 \<and> content st2 = ''b''"
    and "\<exists>st2. run [Redo, Undo] ?st = Some st2
          \<and> history st2 = [''a'', ''b'', ''c''] \<and> historyIndex st2 = 1 \<and> content st2 = ''b''"
    by (auto simp del: run.simps)
  then show ?thesis using h by blast
qed

text \<open>
  The claim as stated fails in a state with an edit that is not committed yet. After the
  mount, \<open>B\<close> is typed and committed 500 time units later, then \<open>C\<close> is typed: the content
  is \<open>C\<close>, the entry at the cursor is \<open>B\<close>, and an undo is possible. The undo followed by
  the redo leaves the content \<open>B\<close>, not \<open>C\<close>.
\<close>

theorem undo_redo_roundtrip_counterexample:
  "run (Change ''B'' # replicate 500 Tick @ [Change ''C'']) mount =
     Some \<lparr>content = ''C'', history = [INITIAL_CONTENT, ''B''], historyIndex = 1,
           isNavigatingHistory = False, debounceTimer = Some 4, hasCleanup = True,
           timers = [\<lparr>handle = 4, remaining = 500, cap_content = ''C'',
                       cap_history = [INITIAL_CONTENT, ''B''], cap_historyIndex = 1\<rparr>],
           lastHandle = 4\<rparr>
   \<and> canUndo \<lparr>content = ''C'', history = [INITIAL_CONTENT, ''B''], historyIndex = 1,
           isNavigatingHistory = False, debounceTimer = Some 4, hasCleanup = True,
           timers = [\<lparr>handle = 4, remaining = 500, cap_content = ''C'',
                       cap_history = [INITIAL_CONTENT, ''B''], cap_historyIndex = 1\<rparr>],
           lastHandle = 4\<rparr>
   \<and> run [Undo, Redo] \<lparr>content = ''C'', history = [INITIAL_CONTENT, ''B''], historyIndex = 1,
           isNavigatingHistory = False, debounceTimer = Some 4, hasCleanup = True,
           timers = [\<lparr>handle = 4, remaining = 500, cap_content = ''C'',
                       cap_history = [INITIAL_CONTENT, ''B''], cap_historyIndex = 1\<rparr>],
           lastHandle = 4\<rparr> =
     Some \<lparr>content = ''B'', history = [INITIAL_CONTENT, ''B''], historyIndex = 1,
           isNavigatingHistory = False, debounceTimer = Some 4, hasCleanup = False,
           timers = [], lastHandle = 4\<rparr>
   \<and> ''B'' \<noteq> ''C''"
proof -
  let ?I = INITIAL_CONTENT
  let ?s2 = "\<lparr>content = ''B'', history = [?I, ''B''], historyIndex = 1,
       isNavigatingHistory = False, debounceTimer = Some 3, hasCleanup = True,
       timers = [\<lparr>handle = 3, remaining = 500, cap_content = ''B'',
                   cap_history = [?I, ''B''], cap_historyIndex = 1\<rparr>],
       lastHandle = 3\<rparr>"
  let ?s3 = "\<lparr>content = ''C'', history = [?I, ''B''], historyIndex = 1,
       isNavigatingHistory = False, debounceTimer = Some 4, hasCleanup = True,
       timers = [\<lparr>handle = 4, remaining = 500, cap_content = ''C'',
                   cap_history = [?I, ''B''], cap_historyIndex = 1\<rparr>],
       lastHandle = 4\<rparr>"
  let ?s4 = "\<lparr>content = ?I, history = [?I, ''B''], historyIndex = 0,
       isNavigatingHistory = False, debounceTimer = Some 4, hasCleanup = False,
       timers = [], lastHandle = 4\<rparr>"
  let ?s5 = "\<lparr>content = ''B'', history = [?I, ''B''], historyIndex = 1,
       isNavigatingHistory = False, debounceTimer = Some 4, hasCleanup = False,
       timers = [], lastHandle = 4\<rparr>"
  have w1: "run (Change ''B'' # replicate 500 Tick) mount = Some ?s2"
    by (rule first_commit) simp
  have c2: "step (Change ''C'') ?s2 = Some ?s3"
    using step_change_new [of "''C''" ?s2] by (simp add: tidy_def del: step.simps)
  have r2: "run [Change ''C''] ?s2 = Some ?s3"
    using c2 by (simp del: step.simps)
  have es: "Change ''B'' # replicate 500 Tick @ [Change ''C'']
              = (Change ''B'' # replicate 500 Tick) @ [Change ''C'']"
    by simp
  have a: "run (Change ''B'' # replicate 500 Tick @ [Change ''C'']) mount = Some ?s3"
    unfolding es using w1 r2 by (simp only: run_append option.case)
  have u: "step Undo ?s3 = Some ?s4"
    using step_undo [of ?s3]
    by (simp add: cursor_ok_def cleanup_def clearPending_def clearTimeout_def del: step.simps)
  have r: "step Redo ?s4 = Some ?s5"
    using step_redo [of ?s4] by (simp add: cleanup_def clearPending_def del: step.simps)
  have b: "run [Undo, Redo] ?s3 = Some ?s5"
    using u r by (simp only: run.simps option.case)
  have c: "canUndo ?s3" by (simp add: canUndo_def)
  show ?thesis using a b c by simp
qed

end
